theory Spec2Isabelle
  imports Main "HOL-Library.Word"
begin

section \<open>Strings and buffers of the platform\<close>

text \<open>
  A JavaScript string is a sequence of UTF-16 code units; a Node \<open>Buffer\<close> is a sequence
  of bytes. \<open>js\<close> writes an ASCII literal as a JavaScript string.
\<close>

type_synonym jsstring = "16 word list"
type_synonym buffer = "8 word list"

definition js :: "string \<Rightarrow> jsstring" where
  "js s = map of_char s"

text \<open>
  \<open>String.prototype.slice(start, end)\<close>: a negative index counts from the end of the
  string, both indices are clamped to the string, and the result is empty when the
  start is not before the end.
\<close>

definition js_slice :: "'a list \<Rightarrow> int \<Rightarrow> int \<Rightarrow> 'a list" where
  "js_slice s start fin =
     (let len = int (length s);
          k = (if start < 0 then max (len + start) 0 else min start len);
          final = (if fin < 0 then max (len + fin) 0 else min fin len)
      in take (nat (final - k)) (drop (nat k) s))"

subsection \<open>Code points of a string\<close>

definition is_high :: "16 word \<Rightarrow> bool" where
  "is_high u = (0xD800 \<le> unat u \<and> unat u \<le> 0xDBFF)"

definition is_low :: "16 word \<Rightarrow> bool" where
  "is_low u = (0xDC00 \<le> unat u \<and> unat u \<le> 0xDFFF)"

definition is_surrogate :: "nat \<Rightarrow> bool" where
  "is_surrogate cp = (0xD800 \<le> cp \<and> cp \<le> 0xDFFF)"

text \<open>
  The code points of a string, as the string iterator yields them: a high surrogate
  followed by a low surrogate is one supplementary code point, and a surrogate that
  has no partner is yielded as it stands.
\<close>

fun codepoints :: "jsstring \<Rightarrow> nat list" where
  "codepoints [] = []"
| "codepoints [u] = [unat u]"
| "codepoints (u # l # us) =
     (if is_high u \<and> is_low l
      then (0x10000 + (unat u - 0xD800) * 0x400 + (unat l - 0xDC00)) # codepoints us
      else unat u # codepoints (l # us))"

text \<open>\<open>String.fromCodePoint\<close>: the UTF-16 code units of one code point.\<close>

definition utf16_units :: "nat \<Rightarrow> jsstring" where
  "utf16_units cp =
     (if cp < 0x10000 then [of_nat cp]
      else [of_nat (0xD800 + (cp - 0x10000) div 0x400),
            of_nat (0xDC00 + (cp - 0x10000) mod 0x400)])"

definition from_codepoints :: "nat list \<Rightarrow> jsstring" where
  "from_codepoints cps = concat (map utf16_units cps)"

text \<open>\<open>String.prototype.isWellFormed\<close>: no surrogate stands without its partner.\<close>

definition isWellFormed :: "jsstring \<Rightarrow> bool" where
  "isWellFormed s = list_all (\<lambda>cp. \<not> is_surrogate cp) (codepoints s)"

subsection \<open>UTF-8\<close>

text \<open>
  The bytes \<open>Buffer.from(string)\<close> writes for one code point (the encoding is
  \<open>'utf8'\<close>). A surrogate without a partner is written as U+FFFD, the bytes
  \<open>EF BF BD\<close>.
\<close>

definition utf8_bytes :: "nat \<Rightarrow> nat list" where
  "utf8_bytes cp =
     (if cp < 0x80 then [cp]
      else if cp < 0x800 then [0xC0 + cp div 64, 0x80 + cp mod 64]
      else if is_surrogate cp then [0xEF, 0xBF, 0xBD]
      else if cp < 0x10000
        then [0xE0 + cp div 4096, 0x80 + cp div 64 mod 64, 0x80 + cp mod 64]
      else [0xF0 + cp div 262144, 0x80 + cp div 4096 mod 64,
            0x80 + cp div 64 mod 64, 0x80 + cp mod 64])"

definition Buffer_from :: "jsstring \<Rightarrow> buffer" where
  "Buffer_from s = map of_nat (concat (map utf8_bytes (codepoints s)))"

definition is_cont :: "nat \<Rightarrow> bool" where
  "is_cont b = (0x80 \<le> b \<and> b \<le> 0xBF)"

text \<open>
  The range of the second byte after a three-byte or four-byte lead: it excludes the
  overlong forms, the surrogates and the code points above U+10FFFF.
\<close>

definition second_ok :: "nat \<Rightarrow> nat \<Rightarrow> bool" where
  "second_ok b0 b1 =
     ((if b0 = 0xE0 then 0xA0 else if b0 = 0xF0 then 0x90 else 0x80) \<le> b1 \<and>
      b1 \<le> (if b0 = 0xED then 0x9F else if b0 = 0xF4 then 0x8F else 0xBF))"

text \<open>
  The code points \<open>buf.toString('utf8')\<close> decodes. An ill-formed sequence gives one
  U+FFFD for its longest well-formed start, and decoding goes on at the byte after it.
\<close>

fun utf8_codepoints :: "nat list \<Rightarrow> nat list" where
  "utf8_codepoints [] = []"
| "utf8_codepoints (b0 # bs) =
     (if b0 < 0x80 then b0 # utf8_codepoints bs
      else if 0xC2 \<le> b0 \<and> b0 \<le> 0xDF then
        (case bs of
           [] \<Rightarrow> [0xFFFD]
         | b1 # bs1 \<Rightarrow>
             if is_cont b1 then ((b0 - 0xC0) * 64 + (b1 - 0x80)) # utf8_codepoints bs1
             else 0xFFFD # utf8_codepoints bs)
      else if 0xE0 \<le> b0 \<and> b0 \<le> 0xEF then
        (case bs of
           [] \<Rightarrow> [0xFFFD]
         | b1 # bs1 \<Rightarrow>
             if second_ok b0 b1 then
               (case bs1 of
                  [] \<Rightarrow> [0xFFFD]
                | b2 # bs2 \<Rightarrow>
                    if is_cont b2
                    then ((b0 - 0xE0) * 4096 + (b1 - 0x80) * 64 + (b2 - 0x80))
                         # utf8_codepoints bs2
                    else 0xFFFD # utf8_codepoints bs1)
             else 0xFFFD # utf8_codepoints bs)
      else if 0xF0 \<le> b0 \<and> b0 \<le> 0xF4 then
        (case bs of
           [] \<Rightarrow> [0xFFFD]
         | b1 # bs1 \<Rightarrow>
             if second_ok b0 b1 then
               (case bs1 of
                  [] \<Rightarrow> [0xFFFD]
                | b2 # bs2 \<Rightarrow>
                    if is_cont b2 then
                      (case bs2 of
                         [] \<Rightarrow> [0xFFFD]
                       | b3 # bs3 \<Rightarrow>
                           if is_cont b3
                           then ((b0 - 0xF0) * 262144 + (b1 - 0x80) * 4096
                                 + (b2 - 0x80) * 64 + (b3 - 0x80))
                                # utf8_codepoints bs3
                           else 0xFFFD # utf8_codepoints bs2)
                    else 0xFFFD # utf8_codepoints bs1)
             else 0xFFFD # utf8_codepoints bs)
      else 0xFFFD # utf8_codepoints bs)"

definition Buffer_toString :: "buffer \<Rightarrow> jsstring" where
  "Buffer_toString buf = from_codepoints (utf8_codepoints (map unat buf))"

section \<open>The bounded pipeline: \<open>manualBackpressure\<close>\<close>

text \<open>
  The function builds a readable and a writable stream of the platform and wires them by
  hand. The streams are in byte mode: a string pushed into the readable stream is kept
  as the buffer of its UTF-8 bytes, and the high-water mark of the writable stream counts
  bytes. What the stream classes do between the calls of the repository's callbacks is
  written out below as far as the run depends on it. The run is one flow of control: a
  write is handed to \<open>_write\<close> only when the one before it has called back, so the
  timers of the consumer fire one after the other, in the order of the writes. The chunk
  size is an integer.
\<close>

subsection \<open>The producer\<close>

text \<open>
  \<open>this.push(chunk)\<close> on a readable stream in byte mode: the string is stored as the
  buffer of its UTF-8 bytes, and an empty chunk is not stored.
\<close>

definition push :: "buffer list \<Rightarrow> jsstring \<Rightarrow> buffer list" where
  "push rbuf chunk = (let b = Buffer_from chunk in if b = [] then rbuf else rbuf @ [b])"

text \<open>
  The loop of \<open>read()\<close>:
  \<^verbatim>\<open>for (let i = 0; i < input.length; i += chunkSize) this.push(input.slice(i, i + chunkSize))\<close>.
  It has no bound of its own, so not returning is the value \<open>None\<close>.
\<close>

partial_function (option) read_loop ::
  "jsstring \<Rightarrow> int \<Rightarrow> int \<Rightarrow> buffer list \<Rightarrow> buffer list option" where
  "read_loop input chunkSize i rbuf =
     (if i < int (length input)
      then read_loop input chunkSize (i + chunkSize)
             (push rbuf (js_slice input i (i + chunkSize)))
      else Some rbuf)"

declare read_loop.simps [code]

subsection \<open>The consumer and the wiring\<close>

type_synonym error = string

datatype outcome = Resolved jsstring nat | Rejected error

text \<open>
  The state of one run: the two variables of the promise's closure, whether the readable
  stream is flowing, and the part of the writable stream's state that \<open>write\<close>,
  \<open>onwrite\<close> and \<open>afterWrite\<close> use. \<open>w_writing\<close> is the chunk handed to \<open>_write\<close>
  whose callback has not been called yet.
\<close>

record run_state =
  result :: jsstring
  pauses :: nat
  r_flowing :: bool
  w_length :: nat
  w_needDrain :: bool
  w_writing :: "buffer option"
  w_buffered :: "buffer list"
  w_ending :: bool

definition highWaterMark :: nat where
  "highWaterMark = 2"

text \<open>
  \<open>writable.write(chunk)\<close>: the chunk's bytes are added to \<open>state.length\<close>, the answer is
  \<open>state.length < state.highWaterMark\<close>, and the chunk goes to \<open>_write\<close> at once or,
  while another write is under way, to the buffered requests.
\<close>

definition writable_write :: "buffer \<Rightarrow> run_state \<Rightarrow> bool \<times> run_state" where
  "writable_write chunk s =
     (let len = w_length s + length chunk;
          ret = len < highWaterMark;
          s1 = s\<lparr>w_length := len, w_needDrain := (if ret then w_needDrain s else True)\<rparr>;
          s2 = (if w_writing s1 \<noteq> None then s1\<lparr>w_buffered := w_buffered s1 @ [chunk]\<rparr>
                else s1\<lparr>w_writing := Some chunk\<rparr>)
      in (ret, s2))"

text \<open>
  The \<open>'data'\<close> handler: on a refused write it counts a pause, pauses the readable
  stream and waits for \<open>'drain'\<close>.
\<close>

definition on_data :: "buffer \<Rightarrow> run_state \<Rightarrow> run_state" where
  "on_data chunk s =
     (let (canContinue, s1) = writable_write chunk s
      in if \<not> canContinue then s1\<lparr>pauses := pauses s1 + 1, r_flowing := False\<rparr> else s1)"

text \<open>
  \<open>flow\<close>: while the stream is flowing, the buffered chunks are read one at a time and
  emitted as \<open>'data'\<close>. The chunks not yet read are returned.
\<close>

fun flow :: "buffer list \<Rightarrow> run_state \<Rightarrow> buffer list \<times> run_state" where
  "flow [] s = ([], s)"
| "flow (chunk # rest) s =
     (if r_flowing s then flow rest (on_data chunk s) else (chunk # rest, s))"

text \<open>
  \<open>onwrite\<close> after a successful write: the written bytes leave \<open>state.length\<close>, and the
  next buffered request, if any, is handed to \<open>_write\<close>.
\<close>

definition onwrite :: "run_state \<Rightarrow> run_state" where
  "onwrite s =
     (let writelen = (case w_writing s of None \<Rightarrow> 0 | Some chunk \<Rightarrow> length chunk);
          s1 = s\<lparr>w_writing := None, w_length := w_length s - writelen\<rparr>
      in case w_buffered s1 of
           [] \<Rightarrow> s1
         | chunk # rest \<Rightarrow> s1\<lparr>w_buffered := rest, w_writing := Some chunk\<rparr>)"

text \<open>\<open>afterWrite\<close> emits \<open>'drain'\<close> when this holds.\<close>

definition needDrain :: "run_state \<Rightarrow> bool" where
  "needDrain s = (\<not> w_ending s \<and> w_length s = 0 \<and> w_needDrain s)"

text \<open>What is handed to the writable stream and not written yet, as a count of chunks.\<close>

definition pending :: "run_state \<Rightarrow> nat" where
  "pending s = length (w_buffered s) + (case w_writing s of None \<Rightarrow> 0 | Some _ \<Rightarrow> 1)"

lemma pending_on_data: "pending (on_data chunk s) = Suc (pending s)"
  by (simp add: on_data_def writable_write_def pending_def Let_def split: option.splits)

lemma pending_flow: "flow rbuf s = (rbuf', s') \<Longrightarrow> length rbuf' + pending s' = length rbuf + pending s"
  by (induction rbuf s rule: flow.induct) (auto simp: pending_on_data split: if_splits)

lemma pending_onwrite: "w_writing s \<noteq> None \<Longrightarrow> Suc (pending (onwrite s)) = pending s"
  by (auto simp: onwrite_def pending_def Let_def split: list.splits)

lemma pending_timer:
  assumes "w_writing s = Some chunk"
    and "s = (if rbuf = [] then s0\<lparr>w_ending := True\<rparr> else s0)"
  shows "Suc (pending (onwrite (s\<lparr>result := r\<rparr>))) = pending s0"
proof -
  have "Suc (pending (onwrite (s\<lparr>result := r\<rparr>))) = pending (s\<lparr>result := r\<rparr>)"
    using assms(1) by (intro pending_onwrite) simp
  also have "\<dots> = pending s0"
    using assms(2) by (simp add: pending_def)
  finally show ?thesis .
qed

text \<open>
  The run after the first \<open>flow\<close>, one timer callback at a time. \<open>accept n chunk\<close> is
  what the consumer's \<open>_write\<close> passes to its callback when it is called with \<open>chunk\<close>
  after \<open>n\<close> earlier writes: \<open>None\<close> for \<open>callback()\<close>, \<open>Some err\<close> for
  \<open>callback(err)\<close>. The value is how the promise is settled, with the chunks that are
  still unread in the readable stream at that moment.
  \<^item> When the readable stream has nothing left it emits \<open>'end'\<close>, and the handler calls
    \<open>writable.end()\<close>.
  \<^item> With no write under way, the writable stream finishes if it is ending and empty,
    and \<open>'finish'\<close> resolves the promise; otherwise nothing is left to run and the
    promise stays pending (\<open>None\<close>).
  \<^item> With a write under way, its timer fires. An error destroys the writable stream,
    which emits \<open>'error'\<close> and never \<open>'drain'\<close> or \<open>'finish'\<close>: the promise is rejected
    and the readable stream is never resumed. Otherwise the chunk is appended to
    \<open>result\<close>, \<open>onwrite\<close> runs, and on \<open>'drain'\<close> the readable stream is resumed and
    flows again.
\<close>

type_synonym consumer = "nat \<Rightarrow> buffer \<Rightarrow> error option"

function event_loop ::
  "consumer \<Rightarrow> nat \<Rightarrow> buffer list \<Rightarrow> run_state \<Rightarrow> (outcome \<times> buffer list) option"
  where
  "event_loop accept n rbuf s0 =
     (let s = (if rbuf = [] then s0\<lparr>w_ending := True\<rparr> else s0)
      in case w_writing s of
           None \<Rightarrow>
             if w_ending s \<and> w_length s = 0 \<and> w_buffered s = []
             then Some (Resolved (result s) (pauses s), rbuf)
             else None
         | Some chunk \<Rightarrow>
             (case accept n chunk of
                Some err \<Rightarrow> Some (Rejected err, rbuf)
              | None \<Rightarrow>
                  let s1 = onwrite (s\<lparr>result := result s @ Buffer_toString chunk\<rparr>)
                  in if needDrain s1
                     then (case flow rbuf (s1\<lparr>w_needDrain := False, r_flowing := True\<rparr>) of
                             (rbuf', s2) \<Rightarrow> event_loop accept (Suc n) rbuf' s2)
                     else event_loop accept (Suc n) rbuf s1))"
  by pat_completeness auto
termination
proof (relation "measure (\<lambda>(accept, n, rbuf, s). length rbuf + pending s)", goal_cases)
  case 1
  show ?case by simp
next
  case (2 accept n rbuf s0 s chunk s1 rbuf' s2)
  have "Suc (pending s1) = pending s0"
    using 2 pending_timer [of s chunk rbuf s0] by simp
  moreover have "length rbuf' + pending s2 = length rbuf + pending s1"
    using 2 pending_flow [of rbuf "s1\<lparr>w_needDrain := False, r_flowing := True\<rparr>" rbuf' s2]
    by (simp add: pending_def)
  ultimately show ?case by simp
next
  case (3 accept n rbuf s0 s chunk s1)
  have "Suc (pending s1) = pending s0"
    using 3 pending_timer [of s chunk rbuf s0] by simp
  then show ?case by simp
qed

text \<open>
  The wiring of the promise: a fresh writable stream, the readable stream set flowing by
  its \<open>'data'\<close> listener, the first \<open>flow\<close> over what \<open>read()\<close> pushed, and then the
  timers.
\<close>

definition initial :: run_state where
  "initial = \<lparr>result = [], pauses = 0, r_flowing = True, w_length = 0,
               w_needDrain = False, w_writing = None, w_buffered = [], w_ending = False\<rparr>"

definition pipeline :: "consumer \<Rightarrow> buffer list \<Rightarrow> (outcome \<times> buffer list) option" where
  "pipeline accept chunks =
     (case flow chunks initial of (rbuf, s) \<Rightarrow> event_loop accept 0 rbuf s)"

text \<open>
  The body of \<open>manualBackpressure(input, chunkSize = 2)\<close> over the callback argument of
  its consumer. An argument left out is \<open>None\<close> and takes the default of the parameter.
  The value \<open>None\<close> of the run is a promise that is never settled.
\<close>

definition manualBackpressure_with ::
  "consumer \<Rightarrow> jsstring \<Rightarrow> int option \<Rightarrow> (outcome \<times> buffer list) option" where
  "manualBackpressure_with accept input chunkSize =
     (case read_loop input (case chunkSize of None \<Rightarrow> 2 | Some c \<Rightarrow> c) 0 [] of
        None \<Rightarrow> None
      | Some chunks \<Rightarrow> pipeline accept chunks)"

text \<open>
  The consumer of the repository: after its delay it appends the chunk and calls
  \<open>callback()\<close>, never with an error.
\<close>

definition slow_write :: consumer where
  "slow_write n chunk = None"

text \<open>\<open>manualBackpressure\<close> itself: the run with the consumer of the repository.\<close>

definition manualBackpressure :: "jsstring \<Rightarrow> int option \<Rightarrow> outcome option" where
  "manualBackpressure input chunkSize =
     map_option fst (manualBackpressure_with slow_write input chunkSize)"

section \<open>The uppercase transform: \<open>pipeToUppercase\<close>\<close>

text \<open>
  \<open>String.prototype.toUpperCase\<close> maps every code point to its full uppercase mapping,
  whatever stands around it. For ASCII that is \<open>a\<close>..\<open>z\<close> to \<open>A\<close>..\<open>Z\<close>; a surrogate
  without a partner stays. The mapping of the code points from U+0080 on is the Unicode
  character database of the platform, which is no part of the repository: it is the
  parameter \<open>ucase\<close>.
\<close>

definition upper_cp :: "(nat \<Rightarrow> nat list) \<Rightarrow> nat \<Rightarrow> nat list" where
  "upper_cp ucase cp =
     (if cp < 0x80 then [if 0x61 \<le> cp \<and> cp \<le> 0x7A then cp - 0x20 else cp]
      else if is_surrogate cp then [cp]
      else ucase cp)"

definition toUpperCase :: "(nat \<Rightarrow> nat list) \<Rightarrow> jsstring \<Rightarrow> jsstring" where
  "toUpperCase ucase s = from_codepoints (concat (map (upper_cp ucase) (codepoints s)))"

text \<open>The \<open>transform\<close> of the stream: \<open>callback(null, chunk.toString().toUpperCase())\<close>.\<close>

definition transform :: "(nat \<Rightarrow> nat list) \<Rightarrow> buffer \<Rightarrow> jsstring" where
  "transform ucase chunk = toUpperCase ucase (Buffer_toString chunk)"

text \<open>
  \<open>pipeToUppercase(input)\<close>. \<open>Readable.from([input])\<close> emits the input as one chunk;
  written to the transform stream the string becomes a buffer; what the transform
  pushes becomes a buffer again; the last stream appends every chunk to \<open>result\<close>, and
  \<open>'finish'\<close> resolves the promise with it. No stream of the pipe reports an error, so
  the promise is never rejected (\<open>Inl\<close>).
\<close>

definition pipeToUppercase :: "(nat \<Rightarrow> nat list) \<Rightarrow> jsstring \<Rightarrow> error + jsstring" where
  "pipeToUppercase ucase input =
     (let written = Buffer_from input;
          pushed = push [] (transform ucase written);
          result = foldl (\<lambda>r chunk. r @ Buffer_toString chunk) [] pushed
      in Inr result)"

section \<open>Buffers: \<open>bufferFromData\<close>\<close>

text \<open>The base64 alphabet, and the value of a character in it (also of \<open>-\<close> and \<open>_\<close>).\<close>

definition b64char :: "nat \<Rightarrow> 16 word" where
  "b64char n =
     (if n < 26 then of_nat (65 + n)
      else if n < 52 then of_nat (71 + n)
      else if n < 62 then of_nat (n - 4)
      else if n = 62 then 0x2B
      else 0x2F)"

definition unbase64 :: "16 word \<Rightarrow> nat option" where
  "unbase64 ch =
     (let c = unat ch
      in if 65 \<le> c \<and> c \<le> 90 then Some (c - 65)
         else if 97 \<le> c \<and> c \<le> 122 then Some (c - 71)
         else if 48 \<le> c \<and> c \<le> 57 then Some (c + 4)
         else if c = 43 \<or> c = 45 then Some 62
         else if c = 47 \<or> c = 95 then Some 63
         else None)"

text \<open>\<open>buf.toString('base64')\<close>: three bytes give four characters, with \<open>=\<close> as padding.\<close>

fun Buffer_toString_base64 :: "buffer \<Rightarrow> jsstring" where
  "Buffer_toString_base64 (a # b # c # bs) =
     (let n = unat a * 65536 + unat b * 256 + unat c
      in b64char (n div 262144) # b64char (n div 4096 mod 64) # b64char (n div 64 mod 64)
         # b64char (n mod 64) # Buffer_toString_base64 bs)"
| "Buffer_toString_base64 [a, b] =
     (let n = unat a * 256 + unat b
      in [b64char (n div 1024), b64char (n div 16 mod 64), b64char (n mod 16 * 4), 0x3D])"
| "Buffer_toString_base64 [a] =
     (let n = unat a in [b64char (n div 4), b64char (n mod 4 * 16), 0x3D, 0x3D])"
| "Buffer_toString_base64 [] = []"

text \<open>
  \<open>Buffer.from(string, 'base64')\<close>: decoding stops at the first \<open>=\<close>, a character outside
  the alphabet is skipped, and a last group of two or three characters gives one or two
  bytes.
\<close>

fun sextets_bytes :: "nat list \<Rightarrow> buffer" where
  "sextets_bytes (a # b # c # d # r) =
     (let n = ((a * 64 + b) * 64 + c) * 64 + d
      in of_nat (n div 65536) # of_nat (n div 256 mod 256) # of_nat (n mod 256)
         # sextets_bytes r)"
| "sextets_bytes [a, b, c] =
     (let n = (a * 64 + b) * 64 + c in [of_nat (n div 1024), of_nat (n div 4 mod 256)])"
| "sextets_bytes [a, b] = [of_nat ((a * 64 + b) div 16)]"
| "sextets_bytes r = []"

definition Buffer_from_base64 :: "jsstring \<Rightarrow> buffer" where
  "Buffer_from_base64 s =
     sextets_bytes (List.map_filter unbase64 (takeWhile (\<lambda>ch. ch \<noteq> 0x3D) s))"

record buffer_info =
  base64 :: jsstring
  length' :: nat

definition bufferFromData :: "jsstring \<Rightarrow> buffer_info" where
  "bufferFromData data =
     (let buf = Buffer_from data
      in \<lparr>base64 = Buffer_toString_base64 buf, length' = length buf\<rparr>)"

section \<open>The event helpers\<close>

text \<open>
  The module's emitter. Every listener of the helpers is registered with \<open>once\<close>, so
  the state is the list of the registered (event, callback) pairs, in the order of
  their registration, and the calls made so far, each a callback with the message it
  was given. A callback is named by a value of the type \<open>'cb\<close>; the callbacks of the
  repository answer an HTTP request and do not touch the emitter.
\<close>

record 'cb emitter =
  listeners :: "(string \<times> 'cb) list"
  calls :: "('cb \<times> string) list"

definition once :: "string \<Rightarrow> 'cb \<Rightarrow> 'cb emitter \<Rightarrow> 'cb emitter" where
  "once ev callback e = e\<lparr>listeners := listeners e @ [(ev, callback)]\<rparr>"

text \<open>
  \<open>emit\<close> calls the listeners of the event in the order of their registration; a
  listener registered with \<open>once\<close> is removed as it is called.
\<close>

definition emit :: "string \<Rightarrow> string \<Rightarrow> 'cb emitter \<Rightarrow> 'cb emitter" where
  "emit ev msg e =
     e\<lparr>listeners := filter (\<lambda>l. fst l \<noteq> ev) (listeners e),
       calls := calls e @ map (\<lambda>l. (snd l, msg)) (filter (\<lambda>l. fst l = ev) (listeners e))\<rparr>"

definition emitPing :: "string \<Rightarrow> 'cb emitter \<Rightarrow> 'cb emitter" where
  "emitPing msg = emit ''ping'' msg"

definition onPingOnce :: "'cb \<Rightarrow> 'cb emitter \<Rightarrow> 'cb emitter" where
  "onPingOnce callback = once ''ping'' callback"

definition emitFileUploaded :: "string \<Rightarrow> 'cb emitter \<Rightarrow> 'cb emitter" where
  "emitFileUploaded filename = emit ''fileUploaded'' filename"

definition onFileUploadedOnce :: "'cb \<Rightarrow> 'cb emitter \<Rightarrow> 'cb emitter" where
  "onFileUploadedOnce callback = once ''fileUploaded'' callback"

text \<open>A call of one of the four helpers, and a sequence of such calls.\<close>

datatype 'cb helper_call =
  OnPingOnce 'cb
| EmitPing string
| OnFileUploadedOnce 'cb
| EmitFileUploaded string

fun helper :: "'cb helper_call \<Rightarrow> 'cb emitter \<Rightarrow> 'cb emitter" where
  "helper (OnPingOnce callback) = onPingOnce callback"
| "helper (EmitPing msg) = emitPing msg"
| "helper (OnFileUploadedOnce callback) = onFileUploadedOnce callback"
| "helper (EmitFileUploaded filename) = emitFileUploaded filename"

definition helpers :: "'cb helper_call list \<Rightarrow> 'cb emitter \<Rightarrow> 'cb emitter" where
  "helpers cs e = fold helper cs e"

text \<open>The messages a callback has been called with, in order.\<close>

definition delivered :: "'cb \<Rightarrow> 'cb emitter \<Rightarrow> string list" where
  "delivered callback e = map snd (filter (\<lambda>c. fst c = callback) (calls e))"

section \<open>Encoding and decoding\<close>

text \<open>The code point U+FFFD in the place of a surrogate.\<close>

definition sanitize :: "nat \<Rightarrow> nat" where
  "sanitize cp = (if is_surrogate cp then 0xFFFD else cp)"

lemma unat_u16_bound: "unat (u :: 16 word) < 65536"
proof -
  have "unat u < 2 ^ LENGTH(16)" by (rule unsigned_less)
  then show ?thesis by simp
qed

lemma utf16_units_unit: "utf16_units (unat (u :: 16 word)) = [u]"
  using unat_u16_bound [of u] by (simp add: utf16_units_def)

lemma utf16_units_pair:
  assumes "is_high u" "is_low l"
  shows "utf16_units (0x10000 + (unat u - 0xD800) * 0x400 + (unat l - 0xDC00)) = [u, l]"
proof -
  define a where "a = unat u - 0xD800"
  define b where "b = unat l - 0xDC00"
  have b: "b < 0x400" and ua: "unat u = 0xD800 + a" and lb: "unat l = 0xDC00 + b"
    using assms by (auto simp: is_high_def is_low_def a_def b_def)
  have "(a * 0x400 + b) div 0x400 = a" "(a * 0x400 + b) mod 0x400 = b"
    using b by simp_all
  then have "utf16_units (0x10000 + a * 0x400 + b) = [of_nat (0xD800 + a), of_nat (0xDC00 + b)]"
    by (simp add: utf16_units_def add.assoc)
  also have "\<dots> = [u, l]"
    using ua [symmetric] lb [symmetric] by (simp del: of_nat_add)
  finally show ?thesis by (simp add: a_def b_def)
qed

lemma from_codepoints_codepoints: "from_codepoints (codepoints s) = s"
proof (induction s rule: codepoints.induct)
  case 1
  show ?case by (simp add: from_codepoints_def)
next
  case (2 u)
  show ?case by (simp add: from_codepoints_def utf16_units_unit)
next
  case (3 u l us)
  then show ?case
    by (auto simp: from_codepoints_def utf16_units_unit utf16_units_pair simp del: of_nat_add)
qed

lemma codepoints_bound: "cp \<in> set (codepoints s) \<Longrightarrow> cp < 0x110000"
proof (induction s rule: codepoints.induct)
  case 1
  then show ?case by simp
next
  case (2 u)
  then show ?case using unat_u16_bound [of u] by simp
next
  case (3 u l us)
  then show ?case using unat_u16_bound [of u] unat_u16_bound [of l]
    by (auto simp: is_high_def is_low_def split: if_splits)
qed

lemma utf8_bytes_bound: "cp < 0x110000 \<Longrightarrow> b \<in> set (utf8_bytes cp) \<Longrightarrow> b < 256"
  by (auto simp: utf8_bytes_def split: if_splits)

lemma decode1: "b < 0x80 \<Longrightarrow> utf8_codepoints (b # bs) = b # utf8_codepoints bs"
  by simp

lemma decode2:
  assumes "2 \<le> q" "q < 32" "r < 64"
  shows "utf8_codepoints ((0xC0 + q) # (0x80 + r) # bs) = (q * 64 + r) # utf8_codepoints bs"
  using assms by (simp add: is_cont_def)

lemma decode3:
  assumes "q < 16" "r1 < 64" "r2 < 64" "q = 0 \<longrightarrow> 32 \<le> r1" "q = 13 \<longrightarrow> r1 < 32"
  shows "utf8_codepoints ((0xE0 + q) # (0x80 + r1) # (0x80 + r2) # bs)
         = (q * 4096 + r1 * 64 + r2) # utf8_codepoints bs"
  using assms by (auto simp: is_cont_def second_ok_def)

lemma decode4:
  assumes "q < 5" "r1 < 64" "r2 < 64" "r3 < 64" "q = 0 \<longrightarrow> 16 \<le> r1" "q = 4 \<longrightarrow> r1 < 16"
  shows "utf8_codepoints ((0xF0 + q) # (0x80 + r1) # (0x80 + r2) # (0x80 + r3) # bs)
         = (q * 262144 + r1 * 4096 + r2 * 64 + r3) # utf8_codepoints bs"
  using assms by (auto simp: is_cont_def second_ok_def)

lemma split3:
  fixes cp :: nat
  shows "cp = cp div 4096 * 4096 + cp div 64 mod 64 * 64 + cp mod 64"
proof -
  have a: "cp div 4096 = cp div 64 div 64"
    by (simp add: div_mult2_eq [symmetric])
  have "cp = cp div 64 * 64 + cp mod 64" by simp
  moreover have "cp div 64 = cp div 64 div 64 * 64 + cp div 64 mod 64" by simp
  ultimately show ?thesis unfolding a by linarith
qed

lemma split4:
  fixes cp :: nat
  shows "cp = cp div 262144 * 262144 + cp div 4096 mod 64 * 4096 + cp div 64 mod 64 * 64 + cp mod 64"
proof -
  have b: "cp div 262144 = cp div 4096 div 64"
    by (simp add: div_mult2_eq [symmetric])
  have "cp = cp div 4096 * 4096 + cp div 64 mod 64 * 64 + cp mod 64"
    by (rule split3)
  moreover have "cp div 4096 = cp div 4096 div 64 * 64 + cp div 4096 mod 64"
    by simp
  ultimately show ?thesis unfolding b
    by linarith
qed

lemma decode_two:
  assumes "0x80 \<le> cp" "cp < 0x800"
  shows "utf8_codepoints (utf8_bytes cp @ bs) = cp # utf8_codepoints bs"
proof -
  define q r where "q = cp div 64" and "r = cp mod 64"
  have cp: "cp = q * 64 + r" and r: "r < 64" by (simp_all add: q_def r_def)
  have q: "2 \<le> q" "q < 32" using assms cp r by linarith+
  have "utf8_bytes cp = [0xC0 + q, 0x80 + r]"
    using assms by (simp add: utf8_bytes_def q_def r_def)
  then show ?thesis using decode2 [OF q r, of bs] cp by simp
qed

lemma decode_three:
  assumes "0x800 \<le> cp" "cp < 0x10000" "\<not> is_surrogate cp"
  shows "utf8_codepoints (utf8_bytes cp @ bs) = cp # utf8_codepoints bs"
proof -
  define q r1 r2 where "q = cp div 4096" and "r1 = cp div 64 mod 64" and "r2 = cp mod 64"
  have cp: "cp = q * 4096 + r1 * 64 + r2" and r: "r1 < 64" "r2 < 64"
    using split3 [of cp] by (simp_all add: q_def r1_def r2_def)
  have q: "q < 16" using assms cp r by linarith
  have lo: "q = 0 \<longrightarrow> 32 \<le> r1" using assms cp r by linarith
  have "cp < 0xD800 \<or> 0xDFFF < cp" using assms(3) by (auto simp: is_surrogate_def)
  then have hi: "q = 13 \<longrightarrow> r1 < 32" using cp r by linarith
  have "utf8_bytes cp = [0xE0 + q, 0x80 + r1, 0x80 + r2]"
    using assms by (simp add: utf8_bytes_def q_def r1_def r2_def)
  then show ?thesis using decode3 [OF q r lo hi, of bs] cp by simp
qed

lemma decode_four:
  assumes "0x10000 \<le> cp" "cp < 0x110000"
  shows "utf8_codepoints (utf8_bytes cp @ bs) = cp # utf8_codepoints bs"
proof -
  define q r1 r2 r3 where "q = cp div 262144" and "r1 = cp div 4096 mod 64"
    and "r2 = cp div 64 mod 64" and "r3 = cp mod 64"
  have cp: "cp = q * 262144 + r1 * 4096 + r2 * 64 + r3" and r: "r1 < 64" "r2 < 64" "r3 < 64"
    using split4 [of cp] by (simp_all add: q_def r1_def r2_def r3_def)
  have q: "q < 5" using assms cp r by linarith
  have lo: "q = 0 \<longrightarrow> 16 \<le> r1" using assms cp r by linarith
  have hi: "q = 4 \<longrightarrow> r1 < 16" using assms cp r by linarith
  have "\<not> is_surrogate cp" using assms by (simp add: is_surrogate_def)
  then have "utf8_bytes cp = [0xF0 + q, 0x80 + r1, 0x80 + r2, 0x80 + r3]"
    using assms by (simp add: utf8_bytes_def q_def r1_def r2_def r3_def)
  then show ?thesis using decode4 [OF q r lo hi, of bs] cp by simp
qed

lemma decode_surrogate:
  assumes "is_surrogate cp"
  shows "utf8_codepoints (utf8_bytes cp @ bs) = 0xFFFD # utf8_codepoints bs"
proof -
  have "utf8_codepoints ((0xE0 + 15) # (0x80 + 63) # (0x80 + 61) # bs)
          = (15 * 4096 + 63 * 64 + 61) # utf8_codepoints bs"
    by (intro decode3) auto
  then show ?thesis using assms by (simp add: utf8_bytes_def is_surrogate_def)
qed

lemma decode_bytes:
  assumes "cp < 0x110000"
  shows "utf8_codepoints (utf8_bytes cp @ bs) = sanitize cp # utf8_codepoints bs"
proof -
  consider "cp < 0x80" | "0x80 \<le> cp" "cp < 0x800" | "is_surrogate cp"
    | "0x800 \<le> cp" "cp < 0x10000" "\<not> is_surrogate cp" | "0x10000 \<le> cp"
    by (auto simp: is_surrogate_def) linarith
  then show ?thesis
  proof cases
    case 1
    then show ?thesis by (simp add: utf8_bytes_def sanitize_def is_surrogate_def)
  next
    case 2
    then show ?thesis by (simp add: decode_two sanitize_def is_surrogate_def)
  next
    case 3
    then show ?thesis by (simp add: decode_surrogate sanitize_def)
  next
    case 4
    then show ?thesis by (simp add: decode_three sanitize_def)
  next
    case 5
    then show ?thesis using assms by (simp add: decode_four sanitize_def is_surrogate_def)
  qed
qed

lemma decode_concat:
  assumes "\<forall>cp \<in> set cps. cp < 0x110000"
  shows "utf8_codepoints (concat (map utf8_bytes cps)) = map sanitize cps"
  using assms by (induction cps) (simp_all add: decode_bytes)

lemma unat_bytes:
  assumes "\<forall>b \<in> set bs. b < 256"
  shows "map unat (map of_nat bs :: buffer) = bs"
  using assms by (induction bs) (simp_all add: unat_of_nat)

text \<open>
  Decoding the encoding of a string gives the string with every surrogate that has no
  partner replaced by U+FFFD.
\<close>

lemma toString_from:
  "Buffer_toString (Buffer_from s) = from_codepoints (map sanitize (codepoints s))"
proof -
  have "\<forall>b \<in> set (concat (map utf8_bytes (codepoints s))). b < 256"
    using utf8_bytes_bound codepoints_bound by auto
  then show ?thesis
    using codepoints_bound [of _ s]
    by (simp add: Buffer_toString_def Buffer_from_def unat_bytes decode_concat del: map_map)
qed

lemma toString_from_wellFormed:
  assumes "isWellFormed s"
  shows "Buffer_toString (Buffer_from s) = s"
proof -
  have "map sanitize (codepoints s) = codepoints s"
    using assms by (simp add: isWellFormed_def list_all_iff sanitize_def map_idI)
  then show ?thesis by (simp add: toString_from from_codepoints_codepoints)
qed

section \<open>The run of the pipeline in closed form\<close>

text \<open>
  The first error of the consumer over the chunks in order; the number of refused writes
  when chunks of the given byte lengths are written, \<open>len\<close> bytes being under way at the
  start; the chunks that are never read from the readable stream.
\<close>

declare event_loop.simps [simp del]

fun first_error :: "consumer \<Rightarrow> nat \<Rightarrow> buffer list \<Rightarrow> error option" where
  "first_error accept n [] = None"
| "first_error accept n (chunk # rest) =
     (case accept n chunk of Some err \<Rightarrow> Some err | None \<Rightarrow> first_error accept (Suc n) rest)"

fun pause_count :: "nat \<Rightarrow> nat list \<Rightarrow> nat" where
  "pause_count len [] = 0"
| "pause_count len (l # ls) =
     (if len + l < highWaterMark then pause_count (len + l) ls else Suc (pause_count 0 ls))"

fun unread :: "consumer \<Rightarrow> nat \<Rightarrow> buffer list \<Rightarrow> buffer list" where
  "unread accept n (c # d # rest) =
     (if length c < highWaterMark
      then (if accept n c = None \<and> accept (Suc n) d = None
            then unread accept (Suc (Suc n)) rest else rest)
      else (if accept n c = None then unread accept (Suc n) (d # rest) else d # rest))"
| "unread accept n chunks = []"

definition settled ::
  "consumer \<Rightarrow> nat \<Rightarrow> jsstring \<Rightarrow> nat \<Rightarrow> buffer list \<Rightarrow> outcome \<times> buffer list" where
  "settled accept n res p chunks =
     (case first_error accept n chunks of
        Some err \<Rightarrow> Rejected err
      | None \<Rightarrow> Resolved (res @ concat (map Buffer_toString chunks))
                  (p + pause_count 0 (map length chunks)),
      unread accept n chunks)"

definition idle :: "jsstring \<Rightarrow> nat \<Rightarrow> run_state" where
  "idle res p = \<lparr>result = res, pauses = p, r_flowing = True, w_length = 0,
               w_needDrain = False, w_writing = None, w_buffered = [], w_ending = False\<rparr>"

definition run ::
  "consumer \<Rightarrow> nat \<Rightarrow> buffer list \<Rightarrow> run_state \<Rightarrow> (outcome \<times> buffer list) option" where
  "run accept n chunks s = (case flow chunks s of (rbuf, s') \<Rightarrow> event_loop accept n rbuf s')"

lemma flow_paused: "\<not> r_flowing s \<Longrightarrow> flow rbuf s = (rbuf, s)"
  by (cases rbuf) simp_all

lemma event_loop_idle:
  "w_writing s0 = None \<Longrightarrow> event_loop accept n rbuf s0 =
     (if (rbuf = [] \<or> w_ending s0) \<and> w_length s0 = 0 \<and> w_buffered s0 = []
      then Some (Resolved (result s0) (pauses s0), rbuf) else None)"
  by (subst event_loop.simps) simp

lemma event_loop_timer:
  "w_writing s0 = Some chunk \<Longrightarrow> event_loop accept n rbuf s0 =
     (case accept n chunk of
        Some err \<Rightarrow> Some (Rejected err, rbuf)
      | None \<Rightarrow>
          (let s = (if rbuf = [] then s0\<lparr>w_ending := True\<rparr> else s0);
               s1 = onwrite (s\<lparr>result := result s @ Buffer_toString chunk\<rparr>)
           in if needDrain s1
              then (case flow rbuf (s1\<lparr>w_needDrain := False, r_flowing := True\<rparr>) of
                      (rbuf', s2) \<Rightarrow> event_loop accept (Suc n) rbuf' s2)
              else event_loop accept (Suc n) rbuf s1))"
  by (subst event_loop.simps) (auto simp: Let_def split: option.splits)

lemmas step_defs = run_def idle_def on_data_def writable_write_def flow_paused onwrite_def
  needDrain_def event_loop_idle event_loop_timer

lemma two_fill:
  assumes "c \<noteq> []" "d \<noteq> []"
  shows "\<not> length c + length d < highWaterMark"
  using assms by (cases c; cases d) (simp_all add: highWaterMark_def)

lemma run_nil: "run accept n [] (idle res p) = Some (Resolved res p, [])"
  by (simp add: step_defs)

lemma run_big_error:
  assumes "highWaterMark \<le> length c" "accept n c = Some e"
  shows "run accept n (c # rest) (idle res p) = Some (Rejected e, rest)"
  using assms by (simp add: step_defs)

lemma run_big_last:
  assumes "highWaterMark \<le> length c" "accept n c = None"
  shows "run accept n [c] (idle res p) = Some (Resolved (res @ Buffer_toString c) (Suc p), [])"
  using assms by (simp add: step_defs)

lemma run_big_more:
  assumes "highWaterMark \<le> length c" "accept n c = None" "rest \<noteq> []"
  shows "run accept n (c # rest) (idle res p) = run accept (Suc n) rest (idle (res @ Buffer_toString c) (Suc p))"
  using assms by (simp add: step_defs)

lemma run_small_error:
  assumes "c \<noteq> []" "length c < highWaterMark" "accept n c = Some e" "\<forall>d \<in> set rest. d \<noteq> []"
  shows "run accept n (c # rest) (idle res p) = Some (Rejected e, tl rest)"
proof (cases rest)
  case Nil
  then show ?thesis using assms by (simp add: step_defs)
next
  case (Cons d rest')
  then show ?thesis using assms two_fill [of c d] by (simp add: step_defs)
qed

lemma run_small_last:
  assumes "c \<noteq> []" "length c < highWaterMark" "accept n c = None"
  shows "run accept n [c] (idle res p) = Some (Resolved (res @ Buffer_toString c) p, [])"
  using assms by (simp add: step_defs)

lemma run_pair_error:
  assumes "c \<noteq> []" "d \<noteq> []" "length c < highWaterMark" "accept n c = None" "accept (Suc n) d = Some e"
  shows "run accept n (c # d # rest) (idle res p) = Some (Rejected e, rest)"
  using assms two_fill [of c d] by (simp add: step_defs)

lemma run_pair_last:
  assumes "c \<noteq> []" "d \<noteq> []" "length c < highWaterMark" "accept n c = None" "accept (Suc n) d = None"
  shows "run accept n [c, d] (idle res p) = Some (Resolved (res @ Buffer_toString c @ Buffer_toString d) (Suc p), [])"
  using assms two_fill [of c d] by (simp add: step_defs)

lemma run_pair_more:
  assumes "c \<noteq> []" "d \<noteq> []" "length c < highWaterMark" "accept n c = None" "accept (Suc n) d = None" "rest \<noteq> []"
  shows "run accept n (c # d # rest) (idle res p) = run accept (Suc (Suc n)) rest (idle (res @ Buffer_toString c @ Buffer_toString d) (Suc p))"
  using assms two_fill [of c d] by (simp add: step_defs)

lemma run_settled:
  assumes "\<forall>c \<in> set chunks. c \<noteq> []"
  shows "run accept n chunks (idle res p) = Some (settled accept n res p chunks)"
  using assms
proof (induction chunks arbitrary: n res p rule: length_induct)
  case (1 chunks)
  show ?case
  proof (cases chunks)
    case Nil
    then show ?thesis by (simp add: run_nil settled_def split: option.splits)
  next
    case (Cons c rest)
    note c = Cons
    have ne: "c \<noteq> []" "\<forall>d \<in> set rest. d \<noteq> []" using 1(2) Cons by simp_all
    show ?thesis
    proof (cases "highWaterMark \<le> length c")
      case True
      show ?thesis
      proof (cases "accept n c")
        case (Some e)
        then show ?thesis using True c
          by (cases rest) (simp_all add: run_big_error settled_def split: option.splits)
      next
        case None
        show ?thesis
        proof (cases "rest = []")
          case True
          then show ?thesis using None \<open>highWaterMark \<le> length c\<close> c
            by (simp add: run_big_last settled_def split: option.splits)
        next
          case False
          have "run accept (Suc n) rest (idle (res @ Buffer_toString c) (Suc p))
                = Some (settled accept (Suc n) (res @ Buffer_toString c) (Suc p) rest)"
            using 1(1) ne c by simp
          then show ?thesis using None \<open>highWaterMark \<le> length c\<close> c False
            by (cases rest) (simp_all add: run_big_more settled_def split: option.splits)
        qed
      qed
    next
      case False
      then have small: "length c < highWaterMark" by simp
      show ?thesis
      proof (cases "accept n c")
        case (Some e)
        then show ?thesis using small ne c
          by (cases rest) (simp_all add: run_small_error settled_def split: option.splits)
      next
        case None
        note ac = None
        show ?thesis
        proof (cases rest)
          case Nil
          then show ?thesis using ac small ne c by (simp add: run_small_last settled_def split: option.splits)
        next
          case (Cons d rest')
          have d: "d \<noteq> []" using ne Cons by simp
          show ?thesis
          proof (cases "accept (Suc n) d")
            case (Some e)
            then show ?thesis using ac small ne d c Cons by (simp add: run_pair_error settled_def split: option.splits)
          next
            case None
            show ?thesis
            proof (cases "rest' = []")
              case True
              then show ?thesis using ac None small ne d c Cons two_fill [of c d]
                by (simp add: run_pair_last settled_def split: option.splits)
            next
              case False
              have "run accept (Suc (Suc n)) rest' (idle (res @ Buffer_toString c @ Buffer_toString d) (Suc p))
                = Some (settled accept (Suc (Suc n)) (res @ Buffer_toString c @ Buffer_toString d) (Suc p) rest')"
                using 1(1) ne c Cons by simp
              then show ?thesis using ac None small ne d c Cons False two_fill [of c d]
                by (simp add: run_pair_more settled_def split: option.splits)
            qed
          qed
        qed
      qed
    qed
  qed
qed


section \<open>The chunks that \<open>read()\<close> pushes\<close>

text \<open>A list cut into pieces of \<open>n\<close> elements, the last one shorter when the length asks for it.\<close>

function chunks_of :: "nat \<Rightarrow> 'a list \<Rightarrow> 'a list list" where
  "chunks_of n xs = (if n = 0 \<or> xs = [] then [] else take n xs # chunks_of n (drop n xs))"
  by pat_completeness auto
termination
  by (relation "measure (\<lambda>(n, xs). length xs)") auto

declare chunks_of.simps [simp del]

lemma chunks_of_Nil [simp]: "chunks_of n [] = []"
  by (simp add: chunks_of.simps)

lemma chunks_of_nonempty: "chunk \<in> set (chunks_of n xs) \<Longrightarrow> chunk \<noteq> []"
  by (induction n xs rule: chunks_of.induct) (subst (asm) chunks_of.simps, auto split: if_splits)

lemma concat_chunks_of: "0 < n \<Longrightarrow> concat (chunks_of n xs) = xs"
  by (induction n xs rule: chunks_of.induct) (subst chunks_of.simps, simp)

lemma codepoints_Nil_iff: "codepoints s = [] \<longleftrightarrow> s = []"
  by (induction s rule: codepoints.induct) auto

lemma utf8_bytes_nonempty: "utf8_bytes cp \<noteq> []"
  by (simp add: utf8_bytes_def)

lemma Buffer_from_Nil_iff: "Buffer_from s = [] \<longleftrightarrow> s = []"
  by (cases "codepoints s") (auto simp: Buffer_from_def codepoints_Nil_iff utf8_bytes_nonempty)

lemma js_slice_chunk:
  assumes "0 \<le> i" "0 < c"
  shows "js_slice s i (i + c) = take (nat c) (drop (nat i) s)"
proof (cases "i + c \<le> int (length s)")
  case True
  then show ?thesis using assms by (simp add: js_slice_def Let_def min_def)
next
  case False
  then show ?thesis using assms
    by (cases "i \<le> int (length s)") (auto simp: js_slice_def Let_def min_def)
qed

lemma read_loop_chunks:
  assumes "0 < c" "0 \<le> i"
  shows "read_loop input c i rbuf
         = Some (rbuf @ map Buffer_from (chunks_of (nat c) (drop (nat i) input)))"
  using assms(2)
proof (induction "length input - nat i" arbitrary: i rbuf rule: less_induct)
  case less
  show ?case
  proof (cases "i < int (length input)")
    case False
    then show ?thesis using less.prems
      by (subst read_loop.simps) simp
  next
    case True
    let ?chunk = "take (nat c) (drop (nat i) input)"
    have ne: "?chunk \<noteq> []" using True assms(1) less.prems by simp
    have step: "read_loop input c (i + c) (push rbuf (js_slice input i (i + c)))
          = Some (push rbuf (js_slice input i (i + c))
                  @ map Buffer_from (chunks_of (nat c) (drop (nat (i + c)) input)))"
      using True assms(1) less.prems by (intro less.hyps) auto
    have "drop (nat (i + c)) input = drop (nat c) (drop (nat i) input)"
      using assms(1) less.prems by (simp add: nat_add_distrib add.commute)
    moreover have "chunks_of (nat c) (drop (nat i) input)
                   = ?chunk # chunks_of (nat c) (drop (nat c) (drop (nat i) input))"
      using True assms(1) less.prems by (subst chunks_of.simps) simp
    moreover have "push rbuf (js_slice input i (i + c)) = rbuf @ [Buffer_from ?chunk]"
      using ne less.prems assms(1) by (simp add: push_def js_slice_chunk Buffer_from_Nil_iff Let_def)
    ultimately show ?thesis using True step
      by (subst read_loop.simps) simp
  qed
qed

text \<open>With a chunk size that is not positive the loop never ends on a non-empty input.\<close>

lemma read_loop_returns:
  assumes "read_loop input c i rbuf = Some y"
  shows "0 < c \<or> int (length input) \<le> i"
  using assms
proof (induction arbitrary: y rule: read_loop.raw_induct [where P = "\<lambda>input c i rbuf y. 0 < c \<or> int (length input) \<le> i", rotated 1, consumes 1])
  case (1 read_loop input c i rbuf y)
  show ?case
  proof (rule ccontr)
    assume "\<not> (0 < c \<or> int (length input) \<le> i)"
    then have c: "c \<le> 0" and i: "i < int (length input)" by simp_all
    then have "read_loop input c (i + c) (push rbuf (js_slice input i (i + c))) = Some y"
      using 1(2) by simp
    then have "0 < c \<or> int (length input) \<le> i + c" by (rule 1(1))
    then show False using c i by simp
  qed
qed

lemma read_loop_diverges:
  assumes "c \<le> 0" "i < int (length input)"
  shows "read_loop input c i rbuf = None"
proof (cases "read_loop input c i rbuf")
  case None
  then show ?thesis .
next
  case (Some y)
  then show ?thesis using read_loop_returns [OF Some] assms by simp
qed

lemma pipeline_settled:
  assumes "\<forall>c \<in> set chunks. c \<noteq> []"
  shows "pipeline accept chunks = Some (settled accept 0 [] 0 chunks)"
  using run_settled [OF assms, of accept 0 "[]" 0]
  by (simp add: pipeline_def run_def initial_def idle_def)

lemma manualBackpressure_closed:
  assumes "0 < c"
  shows "manualBackpressure input (Some c)
         = Some (Resolved (concat (map (\<lambda>chunk. Buffer_toString (Buffer_from chunk)) (chunks_of (nat c) input)))
                   (pause_count 0 (map (\<lambda>chunk. length (Buffer_from chunk)) (chunks_of (nat c) input))))"
proof -
  let ?chunks = "map Buffer_from (chunks_of (nat c) input)"
  have "read_loop input c 0 [] = Some ?chunks"
    using read_loop_chunks [OF assms, of 0 input "[]"] by simp
  moreover have "\<forall>b \<in> set ?chunks. b \<noteq> []"
    using chunks_of_nonempty by (auto simp: Buffer_from_Nil_iff)
  then have "pipeline slow_write ?chunks = Some (settled slow_write 0 [] 0 ?chunks)"
    by (rule pipeline_settled)
  moreover have "first_error slow_write n bs = None" for n bs
    by (induction bs arbitrary: n) (simp_all add: slow_write_def)
  ultimately show ?thesis
    by (simp add: manualBackpressure_def manualBackpressure_with_def settled_def comp_def)
qed

text \<open>The run on the empty input, and the consumer of the repository, which never fails.\<close>

lemma manualBackpressure_empty: "manualBackpressure [] chunkSize = Some (Resolved [] 0)"
  by (simp add: manualBackpressure_def manualBackpressure_with_def read_loop.simps pipeline_def initial_def event_loop_idle)

lemma never_rejected: "manualBackpressure input chunkSize \<noteq> Some (Rejected err)"
proof (cases "read_loop input (case chunkSize of None \<Rightarrow> 2 | Some c \<Rightarrow> c) 0 []")
  case None
  then show ?thesis by (simp add: manualBackpressure_def manualBackpressure_with_def)
next
  case (Some chunks)
  let ?c = "case chunkSize of None \<Rightarrow> 2 | Some c \<Rightarrow> c"
  have "0 < ?c \<or> int (length input) \<le> 0"
    using Some by (rule read_loop_returns)
  moreover have "manualBackpressure input chunkSize = manualBackpressure input (Some ?c)"
    by (simp add: manualBackpressure_def manualBackpressure_with_def split: option.splits)
  ultimately show ?thesis
    using manualBackpressure_closed [of ?c input] manualBackpressure_empty [of chunkSize]
    by auto
qed

section \<open>Chunks, bytes and pauses\<close>

lemma chunks_of_slice:
  assumes "chunk \<in> set (chunks_of n xs)"
  shows "\<exists>k<length xs. chunk = take n (drop (k * n) xs)"
  using assms
proof (induction n xs rule: chunks_of.induct)
  case (1 n xs)
  have c: "n \<noteq> 0" "xs \<noteq> []" "chunk = take n xs \<or> chunk \<in> set (chunks_of n (drop n xs))"
    using "1.prems" by (subst (asm) chunks_of.simps, auto split: if_splits)+
  show ?case
  proof (cases "chunk = take n xs")
    case True
    then show ?thesis using c by (intro exI [of _ 0]) simp
  next
    case False
    then have "chunk \<in> set (chunks_of n (drop n xs))" using c by simp
    then obtain k where k: "k < length (drop n xs)" "chunk = take n (drop (k * n) (drop n xs))"
      using "1.IH" c by blast
    have "Suc k < length xs" using k(1) c by simp
    moreover have "chunk = take n (drop (Suc k * n) xs)" using k(2) by (simp add: add.commute)
    ultimately show ?thesis by blast
  qed
qed

lemma utf8_bytes_length: "1 \<le> length (utf8_bytes cp)"
  by (simp add: utf8_bytes_def)

lemma utf8_bytes_pair: "0x10000 \<le> cp \<Longrightarrow> length (utf8_bytes cp) = 4"
  by (simp add: utf8_bytes_def is_surrogate_def)

lemma utf8_bytes_le: "length (utf8_bytes cp) \<le> 4"
  by (simp add: utf8_bytes_def)

lemma units_le_bytes: "length s \<le> length (Buffer_from s)"
proof (induction s rule: codepoints.induct)
  case 1
  show ?case by (simp add: Buffer_from_def)
next
  case (2 u)
  show ?case using utf8_bytes_length [of "unat u"] by (simp add: Buffer_from_def)
next
  case (3 u l us)
  then show ?case
    using utf8_bytes_length [of "unat u"]
    by (auto simp: Buffer_from_def utf8_bytes_pair)
qed

lemma pause_count_none: "len + sum_list ls < highWaterMark \<Longrightarrow> pause_count len ls = 0"
  by (induction ls arbitrary: len) (auto simp: add.assoc)

lemma pause_count_some:
  "len < highWaterMark \<Longrightarrow> highWaterMark \<le> len + sum_list ls \<Longrightarrow> 1 \<le> pause_count len ls"
  by (induction ls arbitrary: len) (auto simp: add.assoc)

lemma wellFormed_chunks:
  assumes "0 < c"
    and "\<forall>k<length input. isWellFormed (js_slice input (int k * c) (int k * c + c))"
    and "chunk \<in> set (chunks_of (nat c) input)"
  shows "isWellFormed chunk"
proof -
  obtain k where k: "k < length input" "chunk = take (nat c) (drop (k * nat c) input)"
    using chunks_of_slice [OF assms(3)] by blast
  have "js_slice input (int k * c) (int k * c + c) = take (nat c) (drop (nat (int k * c)) input)"
    using assms(1) by (intro js_slice_chunk) simp_all
  moreover have "nat (int k * c) = k * nat c"
    using assms(1) by (simp add: nat_mult_distrib)
  moreover have "isWellFormed (js_slice input (int k * c) (int k * c + c))"
    using assms(2) k(1) by blast
  ultimately show ?thesis using k(2) by simp
qed

text \<open>\<open>Buffer.byteLength(string)\<close>: the number of bytes of the UTF-8 encoding.\<close>

definition byteLength :: "jsstring \<Rightarrow> nat" where
  "byteLength s = length (Buffer_from s)"

lemma byteLength_simps:
  "byteLength [] = 0"
  "byteLength [u] = length (utf8_bytes (unat u))"
  "byteLength (u # l # us) =
     (if is_high u \<and> is_low l then 4 + byteLength us
      else length (utf8_bytes (unat u)) + byteLength (l # us))"
  by (auto simp: byteLength_def Buffer_from_def utf8_bytes_pair)

lemma byteLength_Cons_le: "byteLength (u # us) \<le> length (utf8_bytes (unat u)) + byteLength us"
proof (cases us)
  case Nil
  then show ?thesis by (simp add: byteLength_simps)
next
  case (Cons l us')
  show ?thesis
  proof (cases "is_high u \<and> is_low l")
    case False
    then show ?thesis using Cons by (auto simp: byteLength_simps)
  next
    case True
    then have "\<not> is_high l" by (auto simp: is_high_def is_low_def)
    then have "byteLength (l # us') = length (utf8_bytes (unat l)) + byteLength us'"
      by (cases us') (simp_all add: byteLength_simps)
    moreover have "length (utf8_bytes (unat u)) = 3" "length (utf8_bytes (unat l)) = 3"
      using True by (simp_all add: utf8_bytes_def is_surrogate_def is_high_def is_low_def)
    ultimately show ?thesis using True Cons by (simp add: byteLength_simps)
  qed
qed

lemma byteLength_Cons_ge: "byteLength us \<le> byteLength (u # us)"
proof (cases us)
  case Nil
  then show ?thesis by (simp add: byteLength_simps)
next
  case (Cons l us')
  have "byteLength (l # us') \<le> length (utf8_bytes (unat l)) + byteLength us'"
    by (rule byteLength_Cons_le)
  then show ?thesis using Cons utf8_bytes_le [of "unat l"] by (simp add: byteLength_simps)
qed

lemma byteLength_append_ge: "byteLength a \<le> byteLength (a @ b)"
proof (induction a rule: codepoints.induct)
  case 1
  show ?case by (simp add: byteLength_simps)
next
  case (2 u)
  show ?case
  proof (cases b)
    case Nil
    then show ?thesis by simp
  next
    case (Cons l b')
    then show ?thesis using utf8_bytes_le [of "unat u"] by (simp add: byteLength_simps)
  qed
next
  case (3 u l us)
  then show ?case by (simp add: byteLength_simps)
qed

lemma byteLength_append_le: "byteLength (a @ b) \<le> byteLength a + byteLength b"
proof (induction a rule: codepoints.induct)
  case 1
  show ?case by (simp add: byteLength_simps)
next
  case (2 u)
  show ?case using byteLength_Cons_le [of u b] by (simp add: byteLength_simps)
next
  case (3 u l us)
  then show ?case by (simp add: byteLength_simps)
qed

lemma byteLength_chunks: "0 < n \<Longrightarrow> byteLength s \<le> sum_list (map byteLength (chunks_of n s))"
proof (induction n s rule: chunks_of.induct)
  case (1 n xs)
  show ?case
  proof (cases "xs = []")
    case True
    then show ?thesis by (simp add: byteLength_simps)
  next
    case False
    have "byteLength xs = byteLength (take n xs @ drop n xs)" by simp
    also have "\<dots> \<le> byteLength (take n xs) + byteLength (drop n xs)"
      by (rule byteLength_append_le)
    also have "\<dots> \<le> byteLength (take n xs) + sum_list (map byteLength (chunks_of n (drop n xs)))"
      using 1 False by simp
    also have "\<dots> = sum_list (map byteLength (chunks_of n xs))"
      using 1(2) False by (subst (2) chunks_of.simps) simp
    finally show ?thesis .
  qed
qed

lemma pause_count_append:
  "pause_count len (map byteLength (chunks_of n s))
   \<le> pause_count len (map byteLength (chunks_of n (s @ t)))"
proof (induction n s arbitrary: len rule: chunks_of.induct)
  case (1 n s)
  show ?case
  proof (cases "n = 0 \<or> s = []")
    case True
    then show ?thesis by (subst chunks_of.simps) simp
  next
    case False
    then have n: "0 < n" and s: "s \<noteq> []" by simp_all
    have l: "chunks_of n s = take n s # chunks_of n (drop n s)"
      using False by (subst chunks_of.simps) simp
    have r: "chunks_of n (s @ t) = take n (s @ t) # chunks_of n (drop n (s @ t))"
      using False by (subst chunks_of.simps) simp
    show ?thesis
    proof (cases "n \<le> length s")
      case True
      then show ?thesis using l r "1.IH" [OF False] by simp
    next
      case short: False
      then have "byteLength s \<le> byteLength (take n (s @ t))"
        using byteLength_append_ge [of s "take (n - length s) t"] by simp
      then show ?thesis using l r short by (simp add: chunks_of.simps [of n "[]"])
    qed
  qed
qed

text \<open>A string of ASCII characters only.\<close>

definition isAscii :: "jsstring \<Rightarrow> bool" where
  "isAscii s = list_all (\<lambda>u. unat u < 0x80) s"

lemma manualBackpressure_pauses:
  assumes "0 < c"
  shows "\<exists>out. manualBackpressure input (Some c)
         = Some (Resolved out (pause_count 0 (map byteLength (chunks_of (nat c) input))))"
  using manualBackpressure_closed [OF assms, of input] by (simp add: byteLength_def [abs_def])

lemma isAscii_byteLength: "isAscii s \<Longrightarrow> byteLength s = length s"
proof (induction s rule: codepoints.induct)
  case 1
  show ?case by (simp add: byteLength_simps)
next
  case (2 u)
  then show ?case by (simp add: byteLength_simps isAscii_def utf8_bytes_def)
next
  case (3 u l us)
  then have "\<not> is_high u" "unat u < 0x80" by (simp_all add: isAscii_def is_high_def)
  then show ?case using 3 by (simp add: byteLength_simps isAscii_def utf8_bytes_def)
qed

lemma chunks_of_lengths:
  "length s = length t \<Longrightarrow> map length (chunks_of n s) = map length (chunks_of n t)"
proof (induction n s arbitrary: t rule: chunks_of.induct)
  case (1 n s)
  show ?case
  proof (cases "n = 0 \<or> s = []")
    case True
    then show ?thesis using "1.prems" by (auto simp: chunks_of.simps)
  next
    case False
    then have "map length (chunks_of n (drop n s)) = map length (chunks_of n (drop n t))"
      using "1.prems" by (intro "1.IH") simp_all
    then show ?thesis using False "1.prems"
      by (subst chunks_of.simps, subst (2) chunks_of.simps) auto
  qed
qed

lemma isAscii_chunks:
  assumes "isAscii s"
  shows "map byteLength (chunks_of n s) = map length (chunks_of n s)"
proof (rule map_cong [OF refl])
  fix chunk assume "chunk \<in> set (chunks_of n s)"
  then obtain k where "chunk = take n (drop (k * n) s)"
    using chunks_of_slice by blast
  then have "set chunk \<subseteq> set s"
    by (metis set_drop_subset set_take_subset subset_trans)
  then have "isAscii chunk" using assms by (auto simp: isAscii_def list_all_iff)
  then show "byteLength chunk = length chunk" by (rule isAscii_byteLength)
qed

lemma isAscii_take: "isAscii s \<Longrightarrow> isAscii (take k s)"
  by (auto simp: isAscii_def list_all_iff dest: in_set_takeD)

lemma pause_count_ascii:
  assumes "isAscii s" "isAscii t" "length s \<le> length t"
  shows "pause_count 0 (map byteLength (chunks_of n s)) \<le> pause_count 0 (map byteLength (chunks_of n t))"
proof -
  let ?t = "take (length s) t"
  have "map byteLength (chunks_of n s) = map length (chunks_of n s)"
    using assms(1) by (rule isAscii_chunks)
  also have "\<dots> = map length (chunks_of n ?t)"
    using assms(3) by (intro chunks_of_lengths) simp
  also have "\<dots> = map byteLength (chunks_of n ?t)"
    using isAscii_chunks [OF isAscii_take [OF assms(2)]] by simp
  finally have "pause_count 0 (map byteLength (chunks_of n s))
                = pause_count 0 (map byteLength (chunks_of n ?t))" by simp
  also have "\<dots> \<le> pause_count 0 (map byteLength (chunks_of n (?t @ drop (length s) t)))"
    by (rule pause_count_append)
  finally show ?thesis by simp
qed






text \<open>The pauses of an ASCII input, counted from its length.\<close>

lemma isAscii_drop: "isAscii s \<Longrightarrow> isAscii (drop k s)"
  by (auto simp: isAscii_def list_all_iff dest: in_set_dropD)

lemma pause_count_ascii_chunks:
  assumes "2 \<le> n"
  shows "pause_count 0 (map length (chunks_of n s))
         = length s div n + (if 2 \<le> length s mod n then 1 else 0)"
  using assms
proof (induction n s rule: chunks_of.induct)
  case (1 n s)
  show ?case
  proof (cases "s = []")
    case True
    then show ?thesis by simp
  next
    case False
    have ch: "chunks_of n s = take n s # chunks_of n (drop n s)"
      using False "1.prems" by (subst chunks_of.simps) simp
    show ?thesis
    proof (cases "n \<le> length s")
      case True
      have "pause_count 0 (map length (chunks_of n (drop n s)))
            = length (drop n s) div n + (if 2 \<le> length (drop n s) mod n then 1 else 0)"
        using False "1.prems" by (intro "1.IH") simp_all
      moreover have "length s div n = Suc ((length s - n) div n)"
        using True "1.prems" by (simp add: le_div_geq)
      moreover have "length s mod n = (length s - n) mod n"
        using True by (simp add: le_mod_geq)
      ultimately show ?thesis using ch True "1.prems" by (simp add: highWaterMark_def)
    next
      case short: False
      then show ?thesis using ch by (simp add: highWaterMark_def)
    qed
  qed
qed

lemma codepoints_ascii: "isAscii s \<Longrightarrow> codepoints s = map unat s"
proof (induction s rule: codepoints.induct)
  case (3 u l us)
  then have "\<not> is_high u" by (simp add: isAscii_def is_high_def)
  then show ?case using 3 by (simp add: isAscii_def)
qed simp_all

lemma isAscii_wellFormed: "isAscii s \<Longrightarrow> isWellFormed s"
  by (auto simp: isWellFormed_def codepoints_ascii isAscii_def list_all_iff is_surrogate_def)

lemma chunks_ascii:
  assumes "isAscii s" "chunk \<in> set (chunks_of n s)"
  shows "isAscii chunk"
proof -
  obtain k where "chunk = take n (drop (k * n) s)"
    using chunks_of_slice [OF assms(2)] by blast
  then show ?thesis using assms(1) by (simp add: isAscii_take isAscii_drop)
qed

section \<open>Base64 there and back\<close>

lemma unat_u8_bound: "unat (a :: 8 word) < 256"
proof -
  have "unat a < 2 ^ LENGTH(8)" by (rule unsigned_less)
  then show ?thesis by simp
qed

lemma unat_of_nat16: "k < 65536 \<Longrightarrow> unat (of_nat k :: 16 word) = k"
  by (simp add: unat_of_nat)

lemma three_bytes:
  fixes a b c n :: nat
  assumes "b < 256" "c < 256" and n: "n = a * 65536 + b * 256 + c"
  shows "((n div 262144 * 64 + n div 4096 mod 64) * 64 + n div 64 mod 64) * 64 + n mod 64 = n"
    and "n div 65536 = a" and "n div 256 mod 256 = b" and "n mod 256 = c"
proof -
  have "n = n div 262144 * 262144 + n div 4096 mod 64 * 4096 + n div 64 mod 64 * 64 + n mod 64"
    by (rule split4)
  then show "((n div 262144 * 64 + n div 4096 mod 64) * 64 + n div 64 mod 64) * 64 + n mod 64 = n"
    by (simp add: algebra_simps)
  have lt: "b * 256 + c < 65536" using assms by linarith
  have "n = (b * 256 + c) + a * 65536" by (simp add: n)
  then have "n div 65536 = a + (b * 256 + c) div 65536"
    by (simp only: div_mult_self1)
  then show "n div 65536 = a" using lt by (simp only: div_less add_0_right)
  have n2: "n = c + (a * 256 + b) * 256" by (simp add: n)
  then have "n div 256 = (a * 256 + b) + c div 256"
    by (simp only: div_mult_self1)
  then have "n div 256 = b + a * 256" using assms(2) by (simp only: div_less add_0_right add.commute)
  then have "n div 256 mod 256 = b mod 256" by (simp only: mod_mult_self1)
  then show "n div 256 mod 256 = b" using assms(1) by (simp only: mod_less)
  have "n mod 256 = c mod 256" unfolding n2 by (simp only: mod_mult_self1)
  then show "n mod 256 = c" using assms(2) by (simp only: mod_less)
qed

lemma two_bytes:
  fixes a b n :: nat
  assumes "b < 256" and n: "n = a * 256 + b"
  shows "((n div 1024 * 64 + n div 16 mod 64) * 64 + n mod 16 * 4) div 1024 = a"
    and "((n div 1024 * 64 + n div 16 mod 64) * 64 + n mod 16 * 4) div 4 mod 256 = b"
proof -
  define x q r m where "x = n div 16" and "q = n div 1024" and "r = n div 16 mod 64" and "m = n mod 16"
  have "n div 1024 = n div 16 div 64" by (simp add: div_mult2_eq [symmetric])
  then have 1: "x = q * 64 + r" by (simp add: x_def q_def r_def)
  have 2: "n = x * 16 + m" by (simp add: x_def m_def)
  have "(q * 64 + r) * 64 + m * 4 = n * 4" using 1 2 by (simp add: algebra_simps)
  then have e: "(n div 1024 * 64 + n div 16 mod 64) * 64 + n mod 16 * 4 = n * 4"
    by (simp add: q_def r_def m_def)
  have "n * 4 = b * 4 + a * 1024" by (simp add: n)
  then have "n * 4 div 1024 = a + b * 4 div 1024" by (simp only: div_mult_self1)
  moreover have "b * 4 < 1024" using assms by simp
  ultimately have "n * 4 div 1024 = a" by (simp only: div_less add_0_right)
  then show "((n div 1024 * 64 + n div 16 mod 64) * 64 + n mod 16 * 4) div 1024 = a"
    unfolding e .
  have "n = b + a * 256" by (simp add: n)
  then have "n mod 256 = b mod 256" by (simp only: mod_mult_self1)
  then have "n mod 256 = b" using assms(1) by (simp only: mod_less)
  then show "((n div 1024 * 64 + n div 16 mod 64) * 64 + n mod 16 * 4) div 4 mod 256 = b"
    unfolding e by simp
qed

lemma one_byte:
  fixes n :: nat
  shows "(n div 4 * 64 + n mod 4 * 16) div 16 = n"
proof -
  define q m where "q = n div 4" and "m = n mod 4"
  have "n = q * 4 + m" by (simp add: q_def m_def)
  then have "q * 64 + m * 16 = n * 16" by (simp add: algebra_simps)
  then show ?thesis by (simp add: q_def m_def)
qed

lemma sextet_bounds:
  fixes n :: nat
  shows "n mod 16 * 4 < 64" "n mod 4 * 16 < 64"
proof -
  have "n mod 16 < 16" "n mod 4 < 4" by simp_all
  then show "n mod 16 * 4 < 64" "n mod 4 * 16 < 64" by linarith+
qed

lemma unat_b64char:
  assumes "n < 64"
  shows "unat (b64char n) =
     (if n < 26 then 65 + n else if n < 52 then 71 + n else if n < 62 then n - 4
      else if n = 62 then 43 else 47)"
proof -
  have "unat (of_nat (65 + n) :: 16 word) = 65 + n"
       "unat (of_nat (71 + n) :: 16 word) = 71 + n"
       "unat (of_nat (n - 4) :: 16 word) = n - 4"
    using assms by (intro unat_of_nat16; linarith)+
  then show ?thesis unfolding b64char_def
    by (simp del: of_nat_add of_nat_diff)
qed

lemma unbase64_b64char: "n < 64 \<Longrightarrow> unbase64 (b64char n) = Some n"
  unfolding unbase64_def by (simp only: unat_b64char Let_def) auto

lemma unbase64_pad: "unbase64 0x3D = None"
  by (simp add: unbase64_def)

lemma b64char_not_pad: "n < 64 \<Longrightarrow> b64char n \<noteq> 0x3D"
  using unbase64_b64char [of n] unbase64_pad by auto


lemma base64_roundtrip: "Buffer_from_base64 (Buffer_toString_base64 buf) = buf"
proof (induction buf rule: Buffer_toString_base64.induct)
  case (1 a b c bs)
  define n where "n = unat a * 65536 + unat b * 256 + unat c"
  note tb = three_bytes [OF unat_u8_bound [of b] unat_u8_bound [of c] n_def]
  have s: "n div 262144 < 64"
    using unat_u8_bound [of a] unat_u8_bound [of b] unat_u8_bound [of c] by (simp add: n_def)
  have "Buffer_from_base64 (Buffer_toString_base64 (a # b # c # bs))
        = sextets_bytes (n div 262144 # n div 4096 mod 64 # n div 64 mod 64 # n mod 64
            # List.map_filter unbase64 (takeWhile (\<lambda>ch. ch \<noteq> 0x3D) (Buffer_toString_base64 bs)))"
    using s by (simp add: Buffer_from_base64_def Let_def n_def [symmetric] b64char_not_pad
        unbase64_b64char List.map_filter_simps)
  also have "\<dots> = a # b # c # Buffer_from_base64 (Buffer_toString_base64 bs)"
    using tb by (simp add: Buffer_from_base64_def Let_def)
  finally show ?case using 1 by simp
next
  case (2 a b)
  define n where "n = unat a * 256 + unat b"
  note tb = two_bytes [OF unat_u8_bound [of b] n_def]
  have s: "n div 1024 < 64"
    using unat_u8_bound [of a] unat_u8_bound [of b] by (simp add: n_def)
  have "Buffer_from_base64 (Buffer_toString_base64 [a, b])
        = sextets_bytes [n div 1024, n div 16 mod 64, n mod 16 * 4]"
    using s sextet_bounds(1) [of n]
    by (simp add: Buffer_from_base64_def Let_def n_def [symmetric] b64char_not_pad
        unbase64_b64char List.map_filter_simps)
  also have "\<dots> = [a, b]"
    using tb by (simp add: Let_def)
  finally show ?case .
next
  case (3 a)
  have s: "unat a div 4 < 64" using unat_u8_bound [of a] by simp
  have "Buffer_from_base64 (Buffer_toString_base64 [a])
        = sextets_bytes [unat a div 4, unat a mod 4 * 16]"
    using s sextet_bounds(2) [of "unat a"]
    by (simp add: Buffer_from_base64_def Let_def b64char_not_pad
        unbase64_b64char List.map_filter_simps)
  also have "\<dots> = [a]"
    by (simp add: one_byte)
  finally show ?case .
next
  case 4
  show ?case by (simp add: Buffer_from_base64_def List.map_filter_simps)
qed

section \<open>Code points and the uppercase mapping\<close>

text \<open>A code point that can stand in well-formed text: at most U+10FFFF and no surrogate.\<close>

definition is_scalar :: "nat \<Rightarrow> bool" where
  "is_scalar cp = (cp < 0x110000 \<and> \<not> is_surrogate cp)"

lemma codepoints_not_high:
  "\<not> is_high u \<Longrightarrow> codepoints (u # us) = unat u # codepoints us"
  by (cases us) simp_all

lemma codepoints_units:
  assumes "is_scalar cp"
  shows "codepoints (utf16_units cp @ us) = cp # codepoints us"
proof (cases "cp < 0x10000")
  case True
  then have u: "unat (of_nat cp :: 16 word) = cp" by (simp add: unat_of_nat)
  then have "\<not> is_high (of_nat cp)"
    using assms by (auto simp: is_high_def is_scalar_def is_surrogate_def)
  then show ?thesis using True u by (simp add: utf16_units_def codepoints_not_high)
next
  case False
  define q r where "q = (cp - 0x10000) div 0x400" and "r = (cp - 0x10000) mod 0x400"
  have cp: "cp = 0x10000 + q * 0x400 + r" and r: "r < 0x400"
    using False by (simp_all add: q_def r_def)
  have q: "q < 0x400" using assms cp by (simp add: is_scalar_def)
  have h: "unat (of_nat (0xD800 + q) :: 16 word) = 0xD800 + q"
    and l: "unat (of_nat (0xDC00 + r) :: 16 word) = 0xDC00 + r"
    using q r by (intro unat_of_nat16; linarith)+
  have "is_high (of_nat (0xD800 + q))" "is_low (of_nat (0xDC00 + r))"
    unfolding is_high_def is_low_def h l using q r by simp_all
  moreover have "utf16_units cp = [of_nat (0xD800 + q), of_nat (0xDC00 + r)]"
    using False by (simp add: utf16_units_def q_def r_def)
  ultimately show ?thesis
    unfolding cp [symmetric] using h l cp by (simp del: of_nat_add)
qed

lemma codepoints_from_codepoints:
  "\<forall>cp \<in> set cps. is_scalar cp \<Longrightarrow> codepoints (from_codepoints cps) = cps"
  by (induction cps) (simp_all add: from_codepoints_def codepoints_units)

lemma is_scalar_sanitize: "cp < 0x110000 \<Longrightarrow> is_scalar (sanitize cp)"
  by (simp add: is_scalar_def sanitize_def is_surrogate_def)

lemma codepoints_toString_from:
  "codepoints (Buffer_toString (Buffer_from s)) = map sanitize (codepoints s)"
  unfolding toString_from
  by (rule codepoints_from_codepoints) (auto simp: is_scalar_sanitize codepoints_bound)

lemma sanitize_idem: "sanitize (sanitize cp) = sanitize cp"
  by (simp add: sanitize_def is_surrogate_def)

lemma wellFormed_toString_from: "isWellFormed (Buffer_toString (Buffer_from s))"
  by (auto simp: isWellFormed_def codepoints_toString_from list_all_iff sanitize_def is_surrogate_def)

text \<open>
  A table of uppercase mappings: the mapping of a code point consists of code points that
  are no surrogates and that are their own uppercase mapping.
\<close>

definition case_table :: "(nat \<Rightarrow> nat list) \<Rightarrow> bool" where
  "case_table ucase =
     (\<forall>cp. 0x80 \<le> cp \<and> is_scalar cp \<longrightarrow>
        (\<forall>c \<in> set (ucase cp). is_scalar c \<and> upper_cp ucase c = [c]))"

lemma upper_cp_fixed:
  assumes "case_table ucase" "is_scalar cp" "c \<in> set (upper_cp ucase cp)"
  shows "is_scalar c \<and> upper_cp ucase c = [c]"
proof (cases "cp < 0x80")
  case True
  then show ?thesis using assms(3)
    by (auto simp: upper_cp_def is_scalar_def is_surrogate_def split: if_splits)
next
  case False
  then have "c \<in> set (ucase cp)"
    using assms(2,3) by (simp add: upper_cp_def is_scalar_def)
  moreover have "\<forall>c \<in> set (ucase cp). is_scalar c \<and> upper_cp ucase c = [c]"
    using assms(1,2) False unfolding case_table_def by (simp add: not_less)
  ultimately show ?thesis by blast
qed

lemma pipe_closed:
  "pipeToUppercase ucase s
   = Inr (Buffer_toString (Buffer_from (toUpperCase ucase (Buffer_toString (Buffer_from s)))))"
proof -
  have "Buffer_toString [] = []"
    by (simp add: Buffer_toString_def from_codepoints_def)
  then show ?thesis
    by (auto simp: pipeToUppercase_def transform_def push_def Let_def)
qed

lemma upper_codepoints:
  assumes "case_table ucase" "isWellFormed s"
  shows "\<forall>c \<in> set (concat (map (upper_cp ucase) (codepoints s))).
           is_scalar c \<and> upper_cp ucase c = [c]"
proof -
  have "is_scalar cp" if "cp \<in> set (codepoints s)" for cp
    using that assms(2) codepoints_bound [of cp s]
    by (simp add: isWellFormed_def list_all_iff is_scalar_def)
  then show ?thesis using upper_cp_fixed [OF assms(1)] by auto
qed

lemma concat_fixed: "\<forall>x \<in> set xs. f x = [x] \<Longrightarrow> concat (map f xs) = xs"
  by (induction xs) simp_all

lemma toUpperCase_wellFormed:
  assumes "case_table ucase" "isWellFormed s"
  shows "isWellFormed (toUpperCase ucase s)"
    and "toUpperCase ucase (toUpperCase ucase s) = toUpperCase ucase s"
proof -
  let ?cps = "concat (map (upper_cp ucase) (codepoints s))"
  note f = upper_codepoints [OF assms]
  have c: "codepoints (toUpperCase ucase s) = ?cps"
    unfolding toUpperCase_def using f by (intro codepoints_from_codepoints) simp
  show "isWellFormed (toUpperCase ucase s)"
    using f by (simp add: isWellFormed_def c list_all_iff is_scalar_def)
  have "concat (map (upper_cp ucase) ?cps) = ?cps"
    using f by (intro concat_fixed) blast
  then have "from_codepoints (concat (map (upper_cp ucase) (codepoints (toUpperCase ucase s))))
             = from_codepoints ?cps"
    unfolding c by (rule arg_cong)
  then show "toUpperCase ucase (toUpperCase ucase s) = toUpperCase ucase s"
    unfolding toUpperCase_def [symmetric] .
qed

lemma node_upper: "pipeToUppercase ucase (js ''node'') = Inr (js ''NODE'')"
proof -
  have 1: "isWellFormed (js ''node'')" "isWellFormed (js ''NODE'')"
    by (simp_all add: isWellFormed_def js_def is_high_def is_low_def is_surrogate_def)
  have 2: "toUpperCase ucase (js ''node'') = js ''NODE''"
    by (simp add: toUpperCase_def upper_cp_def js_def from_codepoints_def utf16_units_def
        is_high_def is_low_def)
  show ?thesis
    by (simp only: pipe_closed toString_from_wellFormed [OF 1(1)] 2 toString_from_wellFormed [OF 1(2)])
qed

lemma not_ascii_more_bytes: "\<not> isAscii s \<Longrightarrow> length s < byteLength s"
proof (induction s rule: codepoints.induct)
  case 1
  then show ?case by (simp add: isAscii_def)
next
  case (2 u)
  then show ?case by (simp add: isAscii_def byteLength_simps utf8_bytes_def)
next
  case (3 u l us)
  show ?case
  proof (cases "is_high u \<and> is_low l")
    case True
    have "length us \<le> byteLength us" using units_le_bytes [of us] by (simp add: byteLength_def)
    then show ?thesis using True by (simp add: byteLength_simps)
  next
    case False
    show ?thesis
    proof (cases "unat u < 0x80")
      case True
      then have "\<not> isAscii (l # us)" using 3(3) by (simp add: isAscii_def)
      then have "length (l # us) < byteLength (l # us)" using 3(2) False by simp
      then show ?thesis using False utf8_bytes_length [of "unat u"] by (auto simp: byteLength_simps)
    next
      case big: False
      then have "2 \<le> length (utf8_bytes (unat u))" by (simp add: utf8_bytes_def)
      moreover have "length (l # us) \<le> byteLength (l # us)"
        using units_le_bytes [of "l # us"] by (simp add: byteLength_def)
      ultimately show ?thesis using False by (auto simp: byteLength_simps)
    qed
  qed
qed

section \<open>One-shot listeners\<close>

text \<open>The events a callback is registered for, one entry for each registration.\<close>

definition registered :: "'cb \<Rightarrow> 'cb emitter \<Rightarrow> string list" where
  "registered callback e = map fst (filter (\<lambda>l. snd l = callback) (listeners e))"

lemma registered_once:
  "registered cb (once ev cb' e) = registered cb e @ (if cb' = cb then [ev] else [])"
  by (simp add: registered_def once_def)

lemma registered_emit:
  "registered cb (emit ev msg e) = filter (\<lambda>ev'. ev' \<noteq> ev) (registered cb e)"
  by (simp add: registered_def emit_def filter_map comp_def conj_commute)

lemma delivered_once: "delivered cb (once ev cb' e) = delivered cb e"
  by (simp add: delivered_def once_def)

lemma fired_count:
  "map snd (filter (\<lambda>c. fst c = cb) (map (\<lambda>l. (snd l, msg)) (filter (\<lambda>l. fst l = ev) ls)))
   = replicate (count_list (map fst (filter (\<lambda>l. snd l = cb) ls)) ev) msg"
  by (induction ls) auto

lemma delivered_emit:
  "delivered cb (emit ev msg e) = delivered cb e @ replicate (count_list (registered cb e) ev) msg"
  by (simp add: delivered_def emit_def registered_def fired_count)

text \<open>A call that registers the callback, and a call that emits the event.\<close>

fun registers :: "'cb \<Rightarrow> 'cb helper_call \<Rightarrow> bool" where
  "registers cb (OnPingOnce cb') = (cb' = cb)"
| "registers cb (OnFileUploadedOnce cb') = (cb' = cb)"
| "registers cb call = False"

fun emits :: "string \<Rightarrow> 'cb helper_call \<Rightarrow> bool" where
  "emits ev (EmitPing msg) = (ev = ''ping'')"
| "emits ev (EmitFileUploaded filename) = (ev = ''fileUploaded'')"
| "emits ev call = False"

lemmas helper_defs = onPingOnce_def emitPing_def onFileUploadedOnce_def emitFileUploaded_def

lemma waiting_step:
  assumes "registered cb e = [ev]" "\<not> registers cb call" "\<not> emits ev call"
  shows "registered cb (helper call e) = [ev] \<and> delivered cb (helper call e) = delivered cb e"
  using assms
  by (cases call)
     (auto simp: helper_defs registered_once registered_emit delivered_once delivered_emit)

lemma waiting:
  assumes "registered cb e = [ev]" "\<forall>call \<in> set cs. \<not> registers cb call \<and> \<not> emits ev call"
  shows "registered cb (helpers cs e) = [ev] \<and> delivered cb (helpers cs e) = delivered cb e"
  using assms
proof (induction cs arbitrary: e)
  case Nil
  then show ?case by (simp add: helpers_def)
next
  case (Cons call cs)
  have "registered cb (helper call e) = [ev]" "delivered cb (helper call e) = delivered cb e"
    using waiting_step [of cb e ev call] Cons.prems by simp_all
  then show ?case using Cons.IH [of "helper call e"] Cons.prems by (simp add: helpers_def)
qed

lemma gone_step:
  assumes "registered cb e = []" "\<not> registers cb call"
  shows "registered cb (helper call e) = [] \<and> delivered cb (helper call e) = delivered cb e"
  using assms
  by (cases call)
     (auto simp: helper_defs registered_once registered_emit delivered_once delivered_emit)

lemma gone:
  assumes "registered cb e = []" "\<forall>call \<in> set cs. \<not> registers cb call"
  shows "registered cb (helpers cs e) = [] \<and> delivered cb (helpers cs e) = delivered cb e"
  using assms
proof (induction cs arbitrary: e)
  case Nil
  then show ?case by (simp add: helpers_def)
next
  case (Cons call cs)
  have "registered cb (helper call e) = []" "delivered cb (helper call e) = delivered cb e"
    using gone_step [of cb e call] Cons.prems by simp_all
  then show ?case using Cons.IH [of "helper call e"] Cons.prems by (simp add: helpers_def)
qed

lemma helpers_append: "helpers (xs @ ys) e = helpers ys (helpers xs e)"
  by (simp add: helpers_def)

lemma helpers_Cons: "helpers (x # xs) e = helpers xs (helper x e)"
  by (simp add: helpers_def)

lemma once_then_emit:
  assumes "registered cb e = []"
    and "\<forall>call \<in> set mid. \<not> registers cb call \<and> \<not> emits ev call"
    and "\<forall>call \<in> set post. \<not> registers cb call"
  shows "delivered cb (helpers post (emit ev msg (helpers mid (once ev cb e)))) = delivered cb e @ [msg]"
proof -
  let ?e1 = "once ev cb e"
  let ?e2 = "helpers mid ?e1"
  let ?e3 = "emit ev msg ?e2"
  have 1: "registered cb ?e1 = [ev]" "delivered cb ?e1 = delivered cb e"
    using assms(1) by (simp_all add: registered_once delivered_once)
  have 2: "registered cb ?e2 = [ev]" "delivered cb ?e2 = delivered cb e"
    using waiting [OF 1(1) assms(2)] 1(2) by simp_all
  have 3: "registered cb ?e3 = []" "delivered cb ?e3 = delivered cb e @ [msg]"
    using 2 by (simp_all add: registered_emit delivered_emit)
  show ?thesis using gone [OF 3(1) assms(3)] 3(2) by simp
qed

section \<open>The claims\<close>

text \<open>
  C1, as the specification states it, fails: the input that is the one code unit D800,
  a surrogate without its partner, comes back as U+FFFD with the chunk size 1. The
  buffer that \<open>push\<close> stores holds the bytes \<open>EF BF BD\<close> for it. So does the input
  U+1F600, the code units D83D DE00, with the chunk size 1: each chunk holds one half of
  the surrogate pair.
\<close>

theorem C1_counterexample:
  "manualBackpressure [0xD800] (Some 1) = Some (Resolved [0xFFFD] 1)
   \<and> [0xFFFD] \<noteq> [0xD800 :: 16 word]
   \<and> manualBackpressure [0xD83D, 0xDE00] (Some 1) = Some (Resolved [0xFFFD, 0xFFFD] 2)
   \<and> [0xFFFD, 0xFFFD] \<noteq> [0xD83D, 0xDE00 :: 16 word]"
  by (simp add: Let_def manualBackpressure_def manualBackpressure_with_def read_loop.simps js_slice_def push_def
      Buffer_from_def utf8_bytes_def pipeline_def initial_def on_data_def writable_write_def
      highWaterMark_def slow_write_def onwrite_def needDrain_def Buffer_toString_def
      from_codepoints_def utf16_units_def is_high_def is_low_def is_cont_def
      is_surrogate_def second_ok_def event_loop_idle event_loop_timer)

text \<open>
  C1, amended. For every input string and every chunk size of at least 1 such that
  every chunk \<open>input.slice(k * chunkSize, k * chunkSize + chunkSize)\<close> is well-formed
  UTF-16, the run resolves with an output equal to the input, code unit for code unit.
\<close>

theorem C1_lossless:
  assumes "1 \<le> chunkSize"
    and "\<forall>k<length input.
           isWellFormed (js_slice input (int k * chunkSize) (int k * chunkSize + chunkSize))"
  shows "\<exists>p. manualBackpressure input (Some chunkSize) = Some (Resolved input p)"
proof -
  have c: "0 < chunkSize" using assms(1) by simp
  have "map (\<lambda>chunk. Buffer_toString (Buffer_from chunk)) (chunks_of (nat chunkSize) input)
        = chunks_of (nat chunkSize) input"
    using wellFormed_chunks [OF c assms(2)] by (intro map_idI) (simp add: toString_from_wellFormed)
  then show ?thesis
    using c by (simp add: manualBackpressure_closed concat_chunks_of)
qed

text \<open>The amended C1 at an input of three code units with a surrogate pair in its first chunk.\<close>

theorem C1_witness:
  "\<exists>p. manualBackpressure [0xD83D, 0xDE00, 0x61] (Some 2) = Some (Resolved [0xD83D, 0xDE00, 0x61] p)"
proof (rule C1_lossless)
  show "1 \<le> (2::int)" by simp
  show "\<forall>k<length [0xD83D, 0xDE00, 0x61 :: 16 word].
           isWellFormed (js_slice [0xD83D, 0xDE00, 0x61 :: 16 word] (int k * 2) (int k * 2 + 2))"
    by (simp add: All_less_Suc js_slice_def isWellFormed_def is_high_def is_low_def is_surrogate_def)
qed



text \<open>
  C3, as the specification states it, fails: with the chunk size 0 and the input \<open>a\<close> the
  loop of \<open>read()\<close> never ends and the promise is never settled, while with the chunk
  size 2 the run resolves.
\<close>

theorem C3_nonpositive_counterexample:
  "manualBackpressure (js ''a'') (Some 0) = None
   \<and> manualBackpressure (js ''a'') (Some 2) = Some (Resolved (js ''a'') 0)"
proof -
  have "read_loop (js ''a'') 0 0 [] = None"
    by (rule read_loop_diverges) (simp_all add: js_def)
  then have "manualBackpressure (js ''a'') (Some 0) = None"
    by (simp add: manualBackpressure_def manualBackpressure_with_def)
  moreover have "manualBackpressure (js ''a'') (Some 2) = Some (Resolved (js ''a'') 0)"
    by (simp add: manualBackpressure_def manualBackpressure_with_def read_loop.simps js_def js_slice_def push_def
      Buffer_from_def utf8_bytes_def pipeline_def initial_def on_data_def writable_write_def
      highWaterMark_def slow_write_def onwrite_def needDrain_def Buffer_toString_def
      from_codepoints_def utf16_units_def is_high_def is_low_def is_cont_def
      event_loop_idle event_loop_timer)
  ultimately show ?thesis by simp
qed

text \<open>
  C3, amended. For every input string, a run whose chunk size is left out behaves as
  the run with the chunk size 2, and it resolves with a result.
\<close>

theorem C3_default_chunk_size:
  "manualBackpressure input None = manualBackpressure input (Some 2)
   \<and> (\<exists>out p. manualBackpressure input None = Some (Resolved out p))"
proof -
  have "manualBackpressure input None = manualBackpressure input (Some 2)"
    by (simp add: manualBackpressure_def manualBackpressure_with_def)
  then show ?thesis
    using manualBackpressure_closed [of 2 input] by simp
qed

text \<open>
  C4. For the empty input string the bounded pipeline resolves with the empty string
  as output and a pause count of 0, whatever the chunk size is and also without one:
  \<open>read()\<close> pushes no chunk, the readable stream ends at once and the writable stream
  finishes with nothing written.
\<close>

theorem C4_empty_input: "manualBackpressure [] chunkSize = Some (Resolved [] 0)"
  by (rule manualBackpressure_empty)

text \<open>
  C5, as the specification states it, fails: the input \<open>ab\<close> is shorter than the
  high-water mark times the chunk size 2, and the run counts one pause. The high-water
  mark counts bytes, and the first chunk of two bytes reaches it.
\<close>

theorem C5_counterexample:
  "int (length (js ''ab'')) < int highWaterMark * 2
   \<and> manualBackpressure (js ''ab'') (Some 2) = Some (Resolved (js ''ab'') 1)"
  by (simp add: Let_def manualBackpressure_def manualBackpressure_with_def read_loop.simps js_def js_slice_def push_def
      Buffer_from_def utf8_bytes_def pipeline_def initial_def on_data_def writable_write_def
      highWaterMark_def slow_write_def onwrite_def needDrain_def Buffer_toString_def
      from_codepoints_def utf16_units_def is_high_def is_low_def is_cont_def
      event_loop_idle event_loop_timer)

text \<open>
  C5, amended. For every input whose UTF-8 encoding is shorter than the high-water mark
  of two bytes, and every chunk size of at least 1, the run resolves with the input as
  output and a pause count of 0.
\<close>

theorem C5_no_pause:
  assumes "1 \<le> chunkSize" "length (Buffer_from input) < highWaterMark"
  shows "manualBackpressure input (Some chunkSize) = Some (Resolved input 0)"
proof -
  have c: "0 < chunkSize" using assms(1) by simp
  have "length input \<le> 1"
    using units_le_bytes [of input] assms(2) by (simp add: highWaterMark_def)
  then consider "input = []" | u where "input = [u]"
    by (cases input) auto
  then show ?thesis
  proof cases
    case 1
    then show ?thesis by (simp add: manualBackpressure_def manualBackpressure_with_def read_loop.simps pipeline_def initial_def event_loop_idle)
  next
    case 2
    have ch: "chunks_of (nat chunkSize) input = [input]"
      using 2 c by (subst chunks_of.simps) simp
    have "length (utf8_bytes (unat u)) < 2"
      using assms(2) 2 by (simp add: Buffer_from_def highWaterMark_def)
    then have "unat u < 0x80"
      by (simp add: utf8_bytes_def split: if_splits)
    then have "isWellFormed input"
      using 2 by (simp add: isWellFormed_def is_surrogate_def)
    then show ?thesis
      using ch assms(2) by (simp add: manualBackpressure_closed [OF c] toString_from_wellFormed)
  qed
qed

text \<open>The amended C5 at the input \<open>a\<close> with the chunk size 5.\<close>

theorem C5_witness:
  "manualBackpressure (js ''a'') (Some 5) = Some (Resolved (js ''a'') 0)"
  by (rule C5_no_pause) (simp_all add: js_def Buffer_from_def utf8_bytes_def highWaterMark_def)

text \<open>
  C6, as the specification states it, fails: with the chunk size 1 the input of the two
  code units E9 E9 counts two pauses, and the longer input \<open>abc\<close> counts one.
\<close>

theorem C6_counterexample:
  "manualBackpressure [0xE9, 0xE9] (Some 1) = Some (Resolved [0xE9, 0xE9] 2)
   \<and> manualBackpressure (js ''abc'') (Some 1) = Some (Resolved (js ''abc'') 1)
   \<and> length [0xE9, 0xE9 :: 16 word] < length (js ''abc'')"
  by (simp add: Let_def manualBackpressure_def manualBackpressure_with_def read_loop.simps js_def js_slice_def push_def
      Buffer_from_def utf8_bytes_def pipeline_def initial_def on_data_def writable_write_def
      highWaterMark_def slow_write_def onwrite_def needDrain_def Buffer_toString_def
      from_codepoints_def utf16_units_def is_high_def is_low_def is_cont_def is_surrogate_def
      event_loop_idle event_loop_timer)

text \<open>
  C6, amended. For a chunk size of at least 1: an input whose UTF-8 encoding has at least
  as many bytes as the high-water mark yields a pause count of at least 1; an input with
  more text appended never yields fewer pauses than the input itself; and of two ASCII
  inputs the longer one never yields fewer pauses.
\<close>

theorem C6_pauses:
  assumes "1 \<le> chunkSize"
  shows "(highWaterMark \<le> length (Buffer_from input) \<longrightarrow>
            (\<exists>out p. manualBackpressure input (Some chunkSize) = Some (Resolved out p) \<and> 1 \<le> p))
       \<and> (\<exists>out p out' p'.
            manualBackpressure input (Some chunkSize) = Some (Resolved out p)
            \<and> manualBackpressure (input @ ext) (Some chunkSize) = Some (Resolved out' p')
            \<and> p \<le> p')
       \<and> (isAscii s \<and> isAscii t \<and> length s \<le> length t \<longrightarrow>
            (\<exists>out p out' p'.
               manualBackpressure s (Some chunkSize) = Some (Resolved out p)
               \<and> manualBackpressure t (Some chunkSize) = Some (Resolved out' p')
               \<and> p \<le> p'))"
proof -
  have c: "0 < chunkSize" using assms by simp
  have n: "0 < nat chunkSize" using c by simp
  note mp = manualBackpressure_pauses [OF c]
  have "1 \<le> pause_count 0 (map byteLength (chunks_of (nat chunkSize) input))"
    if "highWaterMark \<le> length (Buffer_from input)"
    using that byteLength_chunks [OF n, of input]
    by (intro pause_count_some) (simp_all add: highWaterMark_def byteLength_def)
  then have a: "highWaterMark \<le> length (Buffer_from input) \<longrightarrow>
            (\<exists>out p. manualBackpressure input (Some chunkSize) = Some (Resolved out p) \<and> 1 \<le> p)"
    using mp [of input] by auto
  have b: "\<exists>out p out' p'.
            manualBackpressure input (Some chunkSize) = Some (Resolved out p)
            \<and> manualBackpressure (input @ ext) (Some chunkSize) = Some (Resolved out' p')
            \<and> p \<le> p'"
    using mp [of input] mp [of "input @ ext"] pause_count_append [of 0 "nat chunkSize" input ext]
    by auto
  have d: "isAscii s \<and> isAscii t \<and> length s \<le> length t \<longrightarrow>
            (\<exists>out p out' p'.
               manualBackpressure s (Some chunkSize) = Some (Resolved out p)
               \<and> manualBackpressure t (Some chunkSize) = Some (Resolved out' p')
               \<and> p \<le> p')"
    using mp [of s] mp [of t] pause_count_ascii [of s t "nat chunkSize"]
    by auto
  show ?thesis using a b d by blast
qed

text \<open>The amended C6 at the inputs \<open>abc\<close>, \<open>abc\<close> with one more code unit, and \<open>a\<close>.\<close>

theorem C6_witness:
  "(\<exists>out p. manualBackpressure (js ''abc'') (Some 1) = Some (Resolved out p) \<and> 1 \<le> p)
   \<and> (\<exists>out p out' p'.
         manualBackpressure (js ''abc'') (Some 1) = Some (Resolved out p)
         \<and> manualBackpressure (js ''abc'' @ [0xE9]) (Some 1) = Some (Resolved out' p')
         \<and> p \<le> p')
   \<and> (\<exists>out p out' p'.
         manualBackpressure (js ''a'') (Some 1) = Some (Resolved out p)
         \<and> manualBackpressure (js ''abc'') (Some 1) = Some (Resolved out' p')
         \<and> p \<le> p')"
proof -
  have 1: "1 \<le> (1::int)" by simp
  have 2: "highWaterMark \<le> length (Buffer_from (js ''abc''))"
    by (simp add: js_def Buffer_from_def utf8_bytes_def highWaterMark_def)
  have 3: "isAscii (js ''a'') \<and> isAscii (js ''abc'') \<and> length (js ''a'') \<le> length (js ''abc'')"
    by (simp add: js_def isAscii_def)
  show ?thesis
    using C6_pauses [OF 1, of "js ''abc''" "[0xE9]" "js ''a''" "js ''abc''"] 2 3 by blast
qed

text \<open>
  C7, as the specification states it, fails: for the input that is the one code unit
  D800, a surrogate without its partner, \<open>toUpperCase\<close> gives the input back, and the
  run resolves with U+FFFD, since the transform stream receives the input as the buffer
  of its UTF-8 bytes.
\<close>

theorem C7_counterexample:
  "pipeToUppercase (\<lambda>cp. [cp]) [0xD800] = Inr [0xFFFD]
   \<and> toUpperCase (\<lambda>cp. [cp]) [0xD800] = [0xD800]
   \<and> [0xFFFD] \<noteq> [0xD800 :: 16 word]"
  by (simp add: pipe_closed toString_from sanitize_def is_surrogate_def from_codepoints_def
      utf16_units_def toUpperCase_def upper_cp_def)

text \<open>
  C7, amended. Let the uppercase mappings of the platform be a case table. For every
  well-formed input string \<open>s\<close> the run resolves with \<open>s.toUpperCase()\<close>, the uppercase
  mapping of \<open>s\<close> code point by code point; for every input string, the run on the output
  of a run resolves with that output again; and the input \<open>node\<close> yields \<open>NODE\<close>.
\<close>

theorem C7_uppercase:
  assumes "case_table ucase"
  shows "(isWellFormed s \<longrightarrow> pipeToUppercase ucase s = Inr (toUpperCase ucase s))
       \<and> (\<exists>out. pipeToUppercase ucase s = Inr out \<and> pipeToUppercase ucase out = Inr out)
       \<and> pipeToUppercase ucase (js ''node'') = Inr (js ''NODE'')"
proof -
  have wf: "pipeToUppercase ucase t = Inr (toUpperCase ucase t)" if "isWellFormed t" for t
    using that toUpperCase_wellFormed(1) [OF assms that]
    by (simp add: pipe_closed toString_from_wellFormed)
  let ?t = "Buffer_toString (Buffer_from s)"
  let ?out = "toUpperCase ucase ?t"
  have t: "isWellFormed ?t" by (rule wellFormed_toString_from)
  have out: "isWellFormed ?out" "toUpperCase ucase ?out = ?out"
    using toUpperCase_wellFormed [OF assms t] by simp_all
  have "pipeToUppercase ucase s = Inr ?out"
    using out(1) by (simp add: pipe_closed toString_from_wellFormed)
  moreover have "pipeToUppercase ucase ?out = Inr ?out"
    using wf [OF out(1)] out(2) by simp
  ultimately show ?thesis using wf node_upper by blast
qed

text \<open>
  The amended C7 at a table with the mappings of U+00E9 and U+00DF, and the input of
  these two code points and \<open>a\<close>.
\<close>

theorem C7_witness:
  "pipeToUppercase (\<lambda>cp. if cp = 0xE9 then [0xC9] else if cp = 0xDF then [0x53, 0x53] else [cp])
     [0xE9, 0xDF, 0x61] = Inr [0xC9, 0x53, 0x53, 0x41]
   \<and> pipeToUppercase (\<lambda>cp. if cp = 0xE9 then [0xC9] else if cp = 0xDF then [0x53, 0x53] else [cp])
     [0xC9, 0x53, 0x53, 0x41] = Inr [0xC9, 0x53, 0x53, 0x41]"
proof -
  let ?ucase = "\<lambda>cp::nat. if cp = 0xE9 then [0xC9] else if cp = 0xDF then [0x53, 0x53] else [cp::nat]"
  have ct: "case_table ?ucase"
    by (auto simp: case_table_def upper_cp_def is_scalar_def is_surrogate_def)
  have w: "isWellFormed [0xE9, 0xDF, 0x61]" "isWellFormed [0xC9, 0x53, 0x53, 0x41]"
    by (simp_all add: isWellFormed_def is_high_def is_low_def is_surrogate_def)
  have u: "toUpperCase ?ucase [0xE9, 0xDF, 0x61] = [0xC9, 0x53, 0x53, 0x41]"
          "toUpperCase ?ucase [0xC9, 0x53, 0x53, 0x41] = [0xC9, 0x53, 0x53, 0x41]"
    by (simp_all add: toUpperCase_def upper_cp_def is_high_def is_low_def is_surrogate_def
        from_codepoints_def utf16_units_def)
  show ?thesis
    using C7_uppercase [OF ct, of "[0xE9, 0xDF, 0x61]"] C7_uppercase [OF ct, of "[0xC9, 0x53, 0x53, 0x41]"]
      w u by simp
qed

text \<open>
  C8. For the input \<open>abcdefgh\<close> and chunk size 2 the bounded pipeline resolves with the
  output \<open>abcdefgh\<close> and a pause count of 4, which is at least 1: each of the four chunks
  has two bytes and fills the high-water mark of two bytes by itself.
\<close>

theorem C8_abcdefgh:
  "manualBackpressure (js ''abcdefgh'') (Some 2) = Some (Resolved (js ''abcdefgh'') 4)"
  by (simp add: manualBackpressure_def manualBackpressure_with_def read_loop.simps js_def js_slice_def push_def
      Buffer_from_def utf8_bytes_def pipeline_def initial_def on_data_def writable_write_def
      highWaterMark_def slow_write_def onwrite_def needDrain_def Buffer_toString_def
      from_codepoints_def utf16_units_def is_high_def is_low_def is_cont_def
      event_loop_idle event_loop_timer)

text \<open>
  C9. Let a callback that is not registered be registered with \<open>onPingOnce\<close>, let the
  calls \<open>mid\<close> not emit \<open>ping\<close>, and let neither \<open>mid\<close> nor the calls \<open>post\<close> register the
  callback again. Then over the whole sequence, first \<open>mid\<close>, then \<open>emitPing(msg)\<close>, then
  \<open>post\<close>, the callback is called exactly once more, with \<open>msg\<close>, whatever \<open>post\<close> emits.
  The same holds for \<open>onFileUploadedOnce\<close> and \<open>emitFileUploaded\<close>.
\<close>

theorem C9_one_shot:
  assumes "registered cb e = []"
    and "\<forall>call \<in> set mid. \<not> registers cb call"
    and "\<forall>call \<in> set post. \<not> registers cb call"
  shows "((\<forall>call \<in> set mid. \<not> emits ''ping'' call) \<longrightarrow>
            delivered cb (helpers (OnPingOnce cb # mid @ EmitPing msg # post) e)
            = delivered cb e @ [msg])
       \<and> ((\<forall>call \<in> set mid. \<not> emits ''fileUploaded'' call) \<longrightarrow>
            delivered cb (helpers (OnFileUploadedOnce cb # mid @ EmitFileUploaded msg # post) e)
            = delivered cb e @ [msg])"
proof -
  have "delivered cb (helpers post (emit ev msg (helpers mid (once ev cb e)))) = delivered cb e @ [msg]"
    if "\<forall>call \<in> set mid. \<not> emits ev call" for ev
    using that assms(2) by (intro once_then_emit [OF assms(1) _ assms(3)]) blast
  then show ?thesis
    by (simp add: helpers_append helpers_Cons helper_defs)
qed

text \<open>
  C9 at a callback that is registered first, with other registrations and three
  emissions of \<open>ping\<close> after it, and the same for \<open>fileUploaded\<close>.
\<close>

theorem C9_witness:
  "delivered (1::nat)
     (helpers [OnPingOnce 1, OnPingOnce 2, EmitFileUploaded ''a.txt'', EmitPing ''pong!'',
               EmitPing ''again'', OnPingOnce 3, EmitPing ''third'']
        \<lparr>listeners = [], calls = []\<rparr>) = [''pong!'']
   \<and> delivered (1::nat)
     (helpers [OnFileUploadedOnce 1, EmitPing ''pong!'', EmitFileUploaded ''a.txt'',
               EmitFileUploaded ''b.txt'']
        \<lparr>listeners = [], calls = []\<rparr>) = [''a.txt'']"
proof -
  let ?e = "\<lparr>listeners = [], calls = []\<rparr> :: nat emitter"
  have e: "registered 1 ?e = []" "delivered 1 ?e = []"
    by (simp_all add: registered_def delivered_def)
  have 1: "\<forall>call \<in> set [OnPingOnce 2, EmitFileUploaded ''a.txt'']. \<not> registers (1::nat) call"
          "\<forall>call \<in> set [EmitPing ''again'', OnPingOnce 3, EmitPing ''third'']. \<not> registers (1::nat) call"
          "\<forall>call \<in> set [OnPingOnce (2::nat), EmitFileUploaded ''a.txt'']. \<not> emits ''ping'' call"
    by simp_all
  have 2: "\<forall>call \<in> set [EmitPing ''pong!'']. \<not> registers (1::nat) call"
          "\<forall>call \<in> set [EmitFileUploaded ''b.txt'']. \<not> registers (1::nat) call"
          "\<forall>call \<in> set [EmitPing ''pong!'' :: nat helper_call]. \<not> emits ''fileUploaded'' call"
    by simp_all
  show ?thesis
    using C9_one_shot [OF e(1) 1(1,2), of "''pong!''"] 1(3)
      C9_one_shot [OF e(1) 2(1,2), of "''a.txt''"] 2(3) e(2)
    by simp
qed

text \<open>
  C10, as the specification states it, fails in its last part: for the input that is the
  one code unit D800, decoding the base64 field gives U+FFFD and not the input.
\<close>

theorem C10_counterexample:
  "Buffer_toString (Buffer_from_base64 (base64 (bufferFromData [0xD800]))) = [0xFFFD]
   \<and> [0xFFFD] \<noteq> [0xD800 :: 16 word]"
  by (simp add: bufferFromData_def Let_def base64_roundtrip toString_from sanitize_def
      is_surrogate_def from_codepoints_def utf16_units_def)

text \<open>
  C10, amended. For every input string \<open>data\<close>, the base64 field of
  \<open>bufferFromData(data)\<close> is the base64 encoding of the UTF-8 bytes of \<open>data\<close> and the
  length field is the number of these bytes, which is at least the number of code units
  and more when \<open>data\<close> is not ASCII only. Decoding the base64 field and then the UTF-8
  bytes gives \<open>data\<close> with every surrogate that has no partner replaced by U+FFFD, so
  it gives \<open>data\<close> itself when \<open>data\<close> is well-formed. The function has no error case.
\<close>

theorem C10_bufferFromData:
  "base64 (bufferFromData data) = Buffer_toString_base64 (Buffer_from data)
   \<and> length' (bufferFromData data) = length (Buffer_from data)
   \<and> length data \<le> length' (bufferFromData data)
   \<and> (\<not> isAscii data \<longrightarrow> length data < length' (bufferFromData data))
   \<and> Buffer_toString (Buffer_from_base64 (base64 (bufferFromData data)))
       = from_codepoints (map sanitize (codepoints data))
   \<and> (isWellFormed data \<longrightarrow>
        Buffer_toString (Buffer_from_base64 (base64 (bufferFromData data))) = data)"
proof -
  have 1: "base64 (bufferFromData data) = Buffer_toString_base64 (Buffer_from data)"
    and 2: "length' (bufferFromData data) = length (Buffer_from data)"
    by (simp_all add: bufferFromData_def Let_def)
  have 3: "length data \<le> length (Buffer_from data)"
    by (rule units_le_bytes)
  have 4: "\<not> isAscii data \<longrightarrow> length data < length (Buffer_from data)"
    using not_ascii_more_bytes [of data] by (simp add: byteLength_def)
  have 5: "Buffer_toString (Buffer_from_base64 (Buffer_toString_base64 (Buffer_from data)))
           = from_codepoints (map sanitize (codepoints data))"
    unfolding base64_roundtrip by (rule toString_from)
  have 6: "isWellFormed data \<longrightarrow>
           Buffer_toString (Buffer_from_base64 (Buffer_toString_base64 (Buffer_from data))) = data"
    unfolding base64_roundtrip using toString_from_wellFormed by blast
  show ?thesis unfolding 1 2 using 3 4 5 6 by blast
qed

text \<open>The amended C10 at the input of U+00E9, U+20AC and U+1F600.\<close>

theorem C10_witness:
  "length' (bufferFromData [0xE9, 0x20AC, 0xD83D, 0xDE00]) = 9
   \<and> length [0xE9, 0x20AC, 0xD83D, 0xDE00 :: 16 word] < length' (bufferFromData [0xE9, 0x20AC, 0xD83D, 0xDE00])
   \<and> Buffer_toString (Buffer_from_base64 (base64 (bufferFromData [0xE9, 0x20AC, 0xD83D, 0xDE00])))
       = [0xE9, 0x20AC, 0xD83D, 0xDE00]"
proof -
  let ?d = "[0xE9, 0x20AC, 0xD83D, 0xDE00] :: jsstring"
  have w: "isWellFormed ?d"
    by (simp add: isWellFormed_def is_high_def is_low_def is_surrogate_def)
  have a: "\<not> isAscii ?d"
    by (simp add: isAscii_def)
  have b: "length (Buffer_from ?d) = 9"
    by (simp add: Buffer_from_def utf8_bytes_def is_high_def is_low_def is_surrogate_def)
  note c = C10_bufferFromData [of ?d]
  have "length' (bufferFromData ?d) = 9" using c b by presburger
  moreover have "length ?d < length' (bufferFromData ?d)" using c a by blast
  moreover have "Buffer_toString (Buffer_from_base64 (base64 (bufferFromData ?d))) = ?d"
    using c w by blast
  ultimately show ?thesis by blast
qed

section \<open>Further properties of the bounded pipeline\<close>

text \<open>
  For every chunk size of at least 1 the output is the concatenation of the chunks, each
  with every surrogate that has no partner inside the chunk replaced by U+FFFD.
\<close>

theorem output_decoded:
  assumes "1 \<le> chunkSize"
  shows "\<exists>p. manualBackpressure input (Some chunkSize)
          = Some (Resolved
              (concat (map (\<lambda>chunk. from_codepoints (map sanitize (codepoints chunk)))
                         (chunks_of (nat chunkSize) input))) p)"
proof -
  have "0 < chunkSize" using assms by simp
  then show ?thesis by (simp add: manualBackpressure_closed toString_from)
qed

text \<open>
  A chunk boundary inside a surrogate pair: the one code point U+1F600 with the chunk
  size 1 comes back as two U+FFFD.
\<close>

theorem output_decoded_witness:
  "\<exists>p. manualBackpressure [0xD83D, 0xDE00] (Some 1) = Some (Resolved [0xFFFD, 0xFFFD] p)"
proof -
  have "chunks_of (nat 1) [0xD83D, 0xDE00 :: 16 word] = [[0xD83D], [0xDE00]]"
    by (simp add: chunks_of.simps)
  moreover have "from_codepoints (map sanitize (codepoints [0xD83D])) = [0xFFFD]"
    "from_codepoints (map sanitize (codepoints [0xDE00])) = [0xFFFD]"
    by (simp_all add: from_codepoints_def sanitize_def is_surrogate_def utf16_units_def)
  ultimately show ?thesis
    using output_decoded [of 1 "[0xD83D, 0xDE00]"] by simp
qed

text \<open>
  For an ASCII input and a chunk size of at least 2, every chunk of at least two
  characters is refused once: the pause count is the number of full chunks, and one more
  when the last chunk has at least two characters.
\<close>

theorem ascii_pauses:
  assumes "2 \<le> chunkSize" "isAscii input"
  shows "manualBackpressure input (Some chunkSize)
         = Some (Resolved input
             (length input div nat chunkSize
              + (if 2 \<le> length input mod nat chunkSize then 1 else 0)))"
proof -
  let ?chunks = "chunks_of (nat chunkSize) input"
  have c: "0 < chunkSize" "2 \<le> nat chunkSize" "0 < nat chunkSize" using assms(1) by simp_all
  have "map (\<lambda>chunk. Buffer_toString (Buffer_from chunk)) ?chunks = ?chunks"
    using chunks_ascii [OF assms(2)]
    by (intro map_idI) (simp add: toString_from_wellFormed isAscii_wellFormed)
  then have out: "concat (map (\<lambda>chunk. Buffer_toString (Buffer_from chunk)) ?chunks) = input"
    using c(3) by (simp add: concat_chunks_of)
  have "map (\<lambda>chunk. length (Buffer_from chunk)) ?chunks = map byteLength ?chunks"
    by (simp add: byteLength_def [abs_def])
  also have "\<dots> = map length ?chunks"
    using assms(2) by (rule isAscii_chunks)
  finally have "pause_count 0 (map (\<lambda>chunk. length (Buffer_from chunk)) ?chunks)
      = pause_count 0 (map length ?chunks)"
    by (rule arg_cong)
  also note pause_count_ascii_chunks [OF c(2), of input]
  finally have "pause_count 0 (map (\<lambda>chunk. length (Buffer_from chunk)) ?chunks)
      = length input div nat chunkSize + (if 2 \<le> length input mod nat chunkSize then 1 else 0)" .
  then show ?thesis using out by (simp add: manualBackpressure_closed [OF c(1)])
qed

text \<open>The input \<open>hello\<close> with the chunk size 2 has the chunks \<open>he\<close>, \<open>ll\<close> and \<open>o\<close>, and two pauses.\<close>

theorem ascii_pauses_witness:
  "manualBackpressure (js ''hello'') (Some 2) = Some (Resolved (js ''hello'') 2)"
proof -
  have "isAscii (js ''hello'')" by (simp add: isAscii_def js_def)
  then show ?thesis using ascii_pauses [of 2 "js ''hello''"] by (simp add: js_def)
qed

text \<open>
  With a chunk size that is not positive and a non-empty input the promise is never
  settled: the loop of \<open>read()\<close> does not end.
\<close>

theorem nonpositive_chunk_size_hangs:
  assumes "chunkSize \<le> 0" "input \<noteq> []"
  shows "manualBackpressure input (Some chunkSize) = None"
proof -
  have "read_loop input chunkSize 0 [] = None"
    using assms by (intro read_loop_diverges) simp_all
  then show ?thesis by (simp add: manualBackpressure_def manualBackpressure_with_def)
qed

text \<open>The input \<open>hello\<close> with the chunk size -1.\<close>

theorem nonpositive_chunk_size_hangs_witness:
  "manualBackpressure (js ''hello'') (Some (- 1)) = None"
  by (rule nonpositive_chunk_size_hangs) (simp_all add: js_def)

text \<open>
  Two runs with a failing consumer, one timer at a time. With chunks of two bytes every
  write is refused, so a failure on the second write leaves the third and fourth chunk
  unread. With chunks of one byte the second chunk is written while the first write is
  under way, so a failure on the first write leaves the third and fourth chunk unread
  and the second one buffered in the destroyed writable stream.
\<close>

theorem failing_consumer_runs:
  "manualBackpressure_with (\<lambda>n chunk. if n = 1 then Some ''write failed'' else None)
     (js ''aaaaaaaa'') (Some 2)
   = Some (Rejected ''write failed'', [Buffer_from (js ''aa''), Buffer_from (js ''aa'')])
   \<and> manualBackpressure_with (\<lambda>n chunk. if n = 0 then Some ''write failed'' else None)
       (js ''abcd'') (Some 1)
     = Some (Rejected ''write failed'', [Buffer_from (js ''c''), Buffer_from (js ''d'')])"
  by (simp add: Let_def manualBackpressure_with_def read_loop.simps js_def js_slice_def
      push_def Buffer_from_def utf8_bytes_def pipeline_def initial_def on_data_def
      writable_write_def highWaterMark_def onwrite_def needDrain_def Buffer_toString_def
      from_codepoints_def utf16_units_def is_high_def is_low_def is_cont_def
      event_loop_idle event_loop_timer)

text \<open>
  The promise of \<open>manualBackpressure\<close> is never rejected: the consumer of the
  repository calls \<open>callback()\<close> without an error for every chunk.
\<close>

theorem repository_consumer_never_rejects:
  "manualBackpressure input chunkSize \<noteq> Some (Rejected err)"
  by (rule never_rejected)

end
